theory Spec2Isabelle
  imports Complex_Main "HOL-Library.Log_Nat" "HOL-Library.Multiset"
begin

section \<open>Data model\<close>

text \<open>
  The script \<open>dataanalysis.py\<close> reads \<open>data['plants']['plant1']['logs']\<close>, a JSON object
  from record id to log entry, and builds a data frame with one row per entry
  (\<open>DataFrame.from_dict(logs, orient='index')\<close>). An entry carries a timestamp, four sensor
  channels and a mood label. A sensor cell is a number or NaN, here \<open>None\<close>: the cell of an
  entry whose value is JSON null, or that lacks the key while another entry has it. The
  model covers the logs in which every entry has an integer timestamp that fits the int64
  column of the frame, and a mood string; the frame of such a log has all six columns. What
  the script does with an entry without timestamp or mood, with a value that is not a
  number, or with a sensor key that no entry has, is not modelled. Sensor readings are
  taken as real numbers, so the rounding, overflow and underflow of binary floating point
  in means and correlations are not part of the model.
\<close>

record entry =
  timestamp :: int
  soil_raw :: "real option"
  light_raw :: "real option"
  temp_c :: "real option"
  hum :: "real option"
  mood :: string

type_synonym logs = "(string \<times> entry) list"

datatype error = KeyError string | OutOfBounds

text \<open>
  Two things depend on the pandas and numpy that run the script, and are parameters of the
  model. One is the resolution of the datetime column that line 52 builds: nanoseconds up
  to pandas 2, microseconds from pandas 3. The other is the order in which the sort of
  \<open>value_counts\<close> leaves equal counts (see below).
\<close>

datatype resolution = Nanoseconds | Microseconds

fun ticks :: "resolution \<Rightarrow> int" where
  "ticks Nanoseconds = 1000000000"
| "ticks Microseconds = 1000000"

section \<open>Sorting and classification (lines 26 to 30)\<close>

text \<open>
  \<open>df.sort_values('timestamp')\<close>: rows in ascending order of the timestamp. pandas does not
  fix the order of rows of equal timestamp; the model keeps them as they were. The properties
  below use only that the timestamps of the frame ascend, or hold for a frame in any order,
  so they do not depend on that choice.
\<close>

definition sort_values :: "logs \<Rightarrow> logs" where
  "sort_values rows = sort_key (\<lambda>row. timestamp (snd row)) rows"

definition THRESHOLD :: int where
  "THRESHOLD = 10000000000"

definition is_unix_timestamp :: "entry \<Rightarrow> bool" where
  "is_unix_timestamp r = (timestamp r > THRESHOLD)"

section \<open>Timestamp reconciliation (lines 32 to 53)\<close>

text \<open>
  A \<open>datetime64[ns]\<close> cell is a number of nanoseconds since the Unix epoch, or NaT
  (\<open>None\<close>). pandas keeps it in 64 bits and raises (OutOfBoundsDatetime, OutOfBoundsTimedelta,
  or an overflow error of the addition) when a conversion leaves that range; the model has the
  one error \<open>OutOfBounds\<close> for these.
\<close>

definition in_bounds :: "int \<Rightarrow> bool" where
  "in_bounds ns = (- 9223372036854775807 \<le> ns \<and> ns \<le> 9223372036854775807)"

text \<open>Line 35: \<open>pd.to_datetime(..., unit='ms')\<close> on the rows classified absolute; the
  other rows keep the NaT of line 34.\<close>

definition unix_datetimes :: "entry list \<Rightarrow> error + int option list" where
  "unix_datetimes df =
     (if list_all (\<lambda>r. is_unix_timestamp r \<longrightarrow> in_bounds (timestamp r * 1000000)) df
      then Inr (map (\<lambda>r. if is_unix_timestamp r then Some (timestamp r * 1000000) else None) df)
      else Inl OutOfBounds)"

text \<open>\<open>Series.ffill()\<close>: a missing cell takes the last value seen above it, if any.\<close>

fun ffill_from :: "'a option \<Rightarrow> 'a option list \<Rightarrow> 'a option list" where
  "ffill_from prev [] = []"
| "ffill_from prev (None # xs) = prev # ffill_from prev xs"
| "ffill_from prev (Some v # xs) = Some v # ffill_from (Some v) xs"

definition ffill :: "'a option list \<Rightarrow> 'a option list" where
  "ffill xs = ffill_from None xs"

text \<open>\<open>Series.bfill()\<close>: a missing cell takes the next value below it, if any.\<close>

fun bfill :: "'a option list \<Rightarrow> 'a option list" where
  "bfill [] = []"
| "bfill (Some v # xs) = Some v # bfill xs"
| "bfill (None # xs) = (case bfill xs of [] \<Rightarrow> [None] | y # ys \<Rightarrow> y # y # ys)"

text \<open>Case A, lines 34 to 44. Lines 39 to 41 read the first absolute row into variables
  that are not used again.\<close>

definition datetime_A :: "entry list \<Rightarrow> error + int option list" where
  "datetime_A df =
     (case unix_datetimes df of Inl e \<Rightarrow> Inl e | Inr col \<Rightarrow> Inr (bfill (ffill col)))"

text \<open>
  Case B, lines 50 to 53. The subtraction of line 50 is one of int64 numbers and wraps
  around. The minimum is taken over a frame that has a row: an empty frame never reaches
  this line. \<open>FIXED_EPOCH\<close> is \<open>pd.to_datetime('2025-01-01')\<close> in nanoseconds since the
  Unix epoch, 1735689600 seconds. Line 52 raises when the elapsed time, or its sum with
  2025-01-01, does not fit 64 bits at the resolution of the column; a datetime of the model
  is the instant in nanoseconds at either resolution.
\<close>

definition int64 :: "int \<Rightarrow> int" where
  "int64 n = (n + 9223372036854775808) mod 18446744073709551616 - 9223372036854775808"

definition FIXED_EPOCH :: int where
  "FIXED_EPOCH = 1735689600000000000"

fun seconds_from_start :: "entry list \<Rightarrow> int list" where
  "seconds_from_start [] = []"
| "seconds_from_start (r # rs) =
     (let m = fold min (map timestamp rs) (timestamp r)
      in map (\<lambda>x. int64 (timestamp x - m)) (r # rs))"

definition datetime_B :: "resolution \<Rightarrow> entry list \<Rightarrow> error + int option list" where
  "datetime_B res df =
     (if list_all (\<lambda>s. in_bounds (s * ticks res)
                     \<and> in_bounds (1735689600 * ticks res + s * ticks res))
           (seconds_from_start df)
      then Inr (map (\<lambda>s. Some (FIXED_EPOCH + s * 1000000000)) (seconds_from_start df))
      else Inl OutOfBounds)"

text \<open>
  \<open>df['seconds_from_start'] / 3600\<close> is a division of binary64 floats. For two integers
  below \<open>2^53\<close> in magnitude, which are floats themselves, IEEE 754 gives the float nearest
  to the exact quotient, ties to the even significand. \<open>true_divide\<close> computes that float as
  a rational number: \<open>e\<close> is the binary exponent of the quotient and \<open>u\<close> the spacing of
  the floats around it.
\<close>

definition round_half_even :: "rat \<Rightarrow> int" where
  "round_half_even x =
     (let f = \<lfloor>x\<rfloor>; d = x - of_int f
      in if d < 1 / 2 then f else if 1 / 2 < d then f + 1 else if even f then f else f + 1)"

definition pow2 :: "int \<Rightarrow> rat" where
  "pow2 e = (if 0 \<le> e then 2 ^ nat e else 1 / 2 ^ nat (- e))"

definition true_divide :: "int \<Rightarrow> int \<Rightarrow> rat" where
  "true_divide a b =
     (if a = 0 then 0
      else let q = of_int (abs a) / of_int (abs b);
               k = bitlen (abs a) - bitlen (abs b);
               e = (if pow2 k \<le> q then k else k - 1);
               u = pow2 (e - 52)
           in of_int (sgn a * sgn b * round_half_even (q / u)) * u)"

definition hours_from_start :: "entry list \<Rightarrow> rat list" where
  "hours_from_start df = map (\<lambda>s. true_divide s 3600) (seconds_from_start df)"

text \<open>
  \<open>f'{x:.1f}h'\<close>: the decimal with one fractional digit nearest to the float, ties to even,
  then the letter h.
\<close>

definition digit :: "nat \<Rightarrow> char" where
  "digit n = ''0123456789'' ! n"

function digits :: "nat \<Rightarrow> string" where
  "digits n = (if n < 10 then [digit n] else digits (n div 10) @ [digit (n mod 10)])"
  by pat_completeness auto
termination
  by (relation "measure id") auto

declare digits.simps [simp del]

definition format_1f :: "rat \<Rightarrow> string" where
  "format_1f x =
     (let n = nat (round_half_even (abs x * 10))
      in (if x < 0 then ''-'' else []) @ digits (n div 10) @ ''.'' @ [digit (n mod 10)])"

definition hour_labels :: "entry list \<Rightarrow> string list" where
  "hour_labels df = map (\<lambda>x. format_1f x @ ''h'') (hours_from_start df)"

text \<open>
  Line 47, \<open>dt.strftime('%Y-%m-%d %H:%M')\<close>: the calendar label of a datetime, by the usual
  conversion of a day number to a date of the proleptic Gregorian calendar. A NaT cell has
  no label.
\<close>

definition pad :: "nat \<Rightarrow> nat \<Rightarrow> string" where
  "pad w n = replicate (w - length (digits n)) CHR ''0'' @ digits n"

definition civil_from_days :: "int \<Rightarrow> int \<times> int \<times> int" where
  "civil_from_days days =
     (let z = days + 719468;
          era = z div 146097;
          doe = z - era * 146097;
          yoe = (doe - doe div 1460 + doe div 36524 - doe div 146096) div 365;
          doy = doe - (365 * yoe + yoe div 4 - yoe div 100);
          mp = (5 * doy + 2) div 153;
          d = doy - (153 * mp + 2) div 5 + 1;
          m = (if mp < 10 then mp + 3 else mp - 9);
          y = yoe + era * 400 + (if m \<le> 2 then 1 else 0)
      in (y, m, d))"

definition strftime :: "int option \<Rightarrow> string option" where
  "strftime cell =
     (case cell of None \<Rightarrow> None
      | Some ns \<Rightarrow>
          (let secs = ns div 1000000000;
               sod = secs mod 86400;
               (y, m, d) = civil_from_days (secs div 86400)
           in Some (pad 4 (nat y) @ ''-'' @ pad 2 (nat m) @ ''-'' @ pad 2 (nat d) @ '' ''
                    @ pad 2 (nat (sod div 3600)) @ '':'' @ pad 2 (nat (sod mod 3600 div 60)))))"

text \<open>Lines 32 to 53: the branch on \<open>df['is_unix_timestamp'].any()\<close>.\<close>

record time_axis =
  datetime :: "int option list"
  time_label :: "string option list"

definition reconcile :: "resolution \<Rightarrow> entry list \<Rightarrow> error + time_axis" where
  "reconcile res df =
     (if list_ex is_unix_timestamp df
      then (case datetime_A df of Inl e \<Rightarrow> Inl e
            | Inr col \<Rightarrow> Inr \<lparr>datetime = col, time_label = map strftime col\<rparr>)
      else (case datetime_B res df of Inl e \<Rightarrow> Inl e
            | Inr col \<Rightarrow> Inr \<lparr>datetime = col, time_label = map Some (hour_labels df)\<rparr>))"

section \<open>Rolling averages (lines 56 to 59)\<close>

text \<open>
  \<open>rolling(window=5, min_periods=1).mean()\<close>: the window of a row is the row and the up to
  four rows above it; its value is the mean of the cells of the window that are not NaN, and
  NaN when there are fewer such cells than \<open>min_periods\<close>. \<open>roll\<close> walks down the column
  and carries the window along.
\<close>

definition window_mean :: "nat \<Rightarrow> real option list \<Rightarrow> real option" where
  "window_mean minp win =
     (let obs = map the (filter (\<lambda>c. c \<noteq> None) win)
      in if minp \<le> length obs \<and> obs \<noteq> [] then Some (sum_list obs / real (length obs))
         else None)"

fun roll :: "nat \<Rightarrow> nat \<Rightarrow> real option list \<Rightarrow> real option list \<Rightarrow> real option list" where
  "roll w minp prev [] = []"
| "roll w minp prev (x # xs) =
     (let win = drop (Suc (length prev) - w) (prev @ [x])
      in window_mean minp win # roll w minp win xs)"

definition rolling_mean :: "nat \<Rightarrow> nat \<Rightarrow> real option list \<Rightarrow> real option list" where
  "rolling_mean w minp col = roll w minp [] col"

definition smooth :: "(entry \<Rightarrow> real option) \<Rightarrow> entry list \<Rightarrow> real option list" where
  "smooth ch df = rolling_mean 5 1 (map ch df)"

section \<open>Mood distribution (lines 74 and 144)\<close>




section \<open>Correlation matrix (line 78)\<close>

text \<open>
  \<open>DataFrame.corr()\<close>: for every pair of columns the Pearson coefficient over the rows where
  both cells are present. The cell is NaN when there is no such row (\<open>min_periods\<close> is 1) or
  when the divisor, the root of the product of the two sums of squared deviations, is zero.
  The sums are those of real numbers: a binary64 sum of squares that underflows to zero or
  overflows, for readings of magnitude near 1e-200 or 1e200, is outside the model.
\<close>

definition mean :: "real list \<Rightarrow> real" where
  "mean xs = sum_list xs / real (length xs)"

definition pearson :: "(real \<times> real) list \<Rightarrow> real option" where
  "pearson ps =
     (let mx = mean (map fst ps);
          my = mean (map snd ps);
          sxy = sum_list (map (\<lambda>(x, y). (x - mx) * (y - my)) ps);
          sxx = sum_list (map (\<lambda>(x, y). (x - mx) ^ 2) ps);
          syy = sum_list (map (\<lambda>(x, y). (y - my) ^ 2) ps);
          divisor = sqrt (sxx * syy)
      in if ps = [] then None
         else if divisor \<noteq> 0 then Some (sxy / divisor)
         else None)"

definition complete_pairs :: "real option list \<Rightarrow> real option list \<Rightarrow> (real \<times> real) list" where
  "complete_pairs a b =
     map (\<lambda>(x, y). (the x, the y)) (filter (\<lambda>(x, y). x \<noteq> None \<and> y \<noteq> None) (zip a b))"

definition channels :: "(entry \<Rightarrow> real option) list" where
  "channels = [soil_raw, light_raw, temp_c, hum]"

definition corr :: "entry list \<Rightarrow> real option list list" where
  "corr df =
     map (\<lambda>a. map (\<lambda>b. pearson (complete_pairs (map a df) (map b df))) channels) channels"

section \<open>The script\<close>

text \<open>
  The run of lines 23 to 79 on the mapping \<open>logs\<close>. An empty mapping gives a frame without
  columns, and \<open>sort_values('timestamp')\<close> raises KeyError on it. The mood distribution of
  line 74 is \<open>value_counts\<close> of the mood column of the frame; it is kept out of the report
  because of its parameter. The table of \<open>describe()\<close>, the monitoring period printed at
  lines 62 to 67 and the figures are not modelled.
\<close>

record report =
  index :: "string list"
  frame :: "entry list"
  is_unix :: "bool list"
  axis :: time_axis
  soil_smooth :: "real option list"
  light_smooth :: "real option list"
  temp_smooth :: "real option list"
  hum_smooth :: "real option list"
  correlations :: "real option list list"

definition analysis :: "resolution \<Rightarrow> logs \<Rightarrow> error + report" where
  "analysis res logs =
     (if logs = [] then Inl (KeyError ''timestamp'')
      else let rows = sort_values logs; df = map snd rows in
        case reconcile res df of Inl e \<Rightarrow> Inl e | Inr ax \<Rightarrow>
          Inr \<lparr>index = map fst rows, frame = df, is_unix = map is_unix_timestamp df,
               axis = ax, soil_smooth = smooth soil_raw df,
               light_smooth = smooth light_raw df, temp_smooth = smooth temp_c df,
               hum_smooth = smooth hum df, correlations = corr df\<rparr>)"

section \<open>Properties\<close>

text \<open>
  C2. A record is classified absolute exactly when its timestamp is strictly greater than
  10_000_000_000: the boundary value 10_000_000_000 is uptime, 10_000_000_001 is absolute.
\<close>

theorem C2_classifier_threshold:
  "map is_unix_timestamp df = map (\<lambda>r. 10000000000 < timestamp r) df
   \<and> is_unix_timestamp r = (10000000000 < timestamp r)
   \<and> \<not> is_unix_timestamp (r\<lparr>timestamp := 10000000000\<rparr>)
   \<and> is_unix_timestamp (r\<lparr>timestamp := 10000000001\<rparr>)"
  by (simp add: is_unix_timestamp_def THRESHOLD_def)

subsection \<open>Rolling averages\<close>

lemma length_roll [simp]: "length (roll w minp prev col) = length col"
  by (induction col arbitrary: prev) (simp_all add: Let_def)

lemma window_step:
  "drop (Suc (length (drop (length pre - w) pre)) - w) (drop (length pre - w) pre @ [x]) =
   drop (length (pre @ [x]) - w) (pre @ [x])"
  by (cases "length pre \<le> w") (auto simp: Suc_diff_le)

lemma roll_nth:
  "i < length col \<Longrightarrow>
   roll w minp (drop (length pre - w) pre) col ! i =
     window_mean minp (drop (length pre + Suc i - w) (pre @ take (Suc i) col))"
proof (induction col arbitrary: pre i)
  case Nil
  then show ?case by simp
next
  case (Cons x col)
  show ?case
  proof (cases i)
    case 0
    then show ?thesis
      using window_step [of pre w x] by (simp add: Let_def)
  next
    case (Suc k)
    with Cons.prems have k: "k < length col" by simp
    have "roll w minp (drop (length pre - w) pre) (x # col) ! i =
          roll w minp (drop (length (pre @ [x]) - w) (pre @ [x])) col ! k"
      using window_step [of pre w x] by (simp add: Let_def Suc)
    also have "\<dots> = window_mean minp
        (drop (length (pre @ [x]) + Suc k - w) ((pre @ [x]) @ take (Suc k) col))"
      by (rule Cons.IH [OF k])
    finally show ?thesis by (simp add: Suc)
  qed
qed

lemma rolling_mean_nth:
  "i < length col \<Longrightarrow>
   rolling_mean w minp col ! i = window_mean minp (drop (Suc i - w) (take (Suc i) col))"
  using roll_nth [of i col w minp "[]"] by (simp add: rolling_mean_def)

lemma window_mean_present:
  "xs \<noteq> [] \<Longrightarrow> window_mean 1 (map Some xs) = Some (sum_list xs / real (length xs))"
  by (simp add: window_mean_def Let_def filter_map comp_def Suc_le_eq)


lemma window_examples:
  "window_mean (Suc 0) [Some 1] = Some 1"
  "window_mean (Suc 0) [Some 1, Some 2] = Some 1.5"
  "window_mean (Suc 0) [Some 1, Some 2, Some 3] = Some 2"
  "window_mean (Suc 0) [Some 1, Some 2, Some 3, Some 4] = Some 2.5"
  "window_mean (Suc 0) [Some 1, Some 2, Some 3, Some 4, Some 5] = Some 3"
  "window_mean (Suc 0) [Some 2, Some 3, Some 4, Some 5, Some 6] = Some 4"
  by (simp_all add: window_mean_def)

lemma rolling_example:
  "rolling_mean 5 1 (map Some [1, 2, 3, 4, 5, 6]) =
     [Some 1, Some 1.5, Some 2, Some 2.5, Some 3, Some 4]"
  by (simp add: rolling_mean_def window_examples)


text \<open>
  C5. The smoothed series of a channel has the length of the input, and where every value
  of the channel is present its cell \<open>i\<close> is the arithmetic mean of the inputs from index
  \<open>max 0 (i - 4)\<close> to \<open>i\<close>: a window of five, of fewer at the start. The input
  1, 2, 3, 4, 5, 6 gives 1, 1.5, 2, 2.5, 3, 4.
\<close>

theorem C5_rolling_smoother:
  assumes "\<forall>r\<in>set df. ch r \<noteq> None" and "i < length df"
  shows "length (smooth ch df) = length df
     \<and> (let win = map (\<lambda>r. the (ch r)) (drop (i - 4) (take (Suc i) df))
        in smooth ch df ! i = Some (sum_list win / real (length win)))
     \<and> rolling_mean 5 1 (map Some [1, 2, 3, 4, 5, 6]) =
         [Some 1, Some 1.5, Some 2, Some 2.5, Some 3, Some 4]"
proof -
  let ?win = "drop (i - 4) (take (Suc i) df)"
  have present: "map ch ?win = map Some (map (\<lambda>r. the (ch r)) ?win)"
    using assms(1) by (auto dest!: in_set_dropD in_set_takeD)
  have nonempty: "map (\<lambda>r. the (ch r)) ?win \<noteq> []"
    using assms(2) by simp
  have "smooth ch df ! i = window_mean 1 (drop (Suc i - 5) (take (Suc i) (map ch df)))"
    using assms(2) by (simp add: smooth_def rolling_mean_nth)
  also have "drop (Suc i - 5) (take (Suc i) (map ch df)) = map ch ?win"
    by (simp add: take_map drop_map)
  also have "window_mean 1 (map ch ?win) =
      Some (sum_list (map (\<lambda>r. the (ch r)) ?win) / real (length (map (\<lambda>r. the (ch r)) ?win)))"
    unfolding present by (rule window_mean_present [OF nonempty])
  finally have nth: "smooth ch df ! i =
      Some (sum_list (map (\<lambda>r. the (ch r)) ?win) / real (length (map (\<lambda>r. the (ch r)) ?win)))" .
  have len: "length (smooth ch df) = length df"
    by (simp add: smooth_def rolling_mean_def)
  show ?thesis
    unfolding Let_def by (intro conjI len nth rolling_example)
qed

theorem C5_rolling_smoother_witness:
  "(let df = [\<lparr>timestamp = 0, soil_raw = Some 1, light_raw = None, temp_c = None, hum = None, mood = ''happy''\<rparr>,
        \<lparr>timestamp = 60, soil_raw = Some 2, light_raw = None, temp_c = None, hum = None, mood = ''happy''\<rparr>]
    in soil_raw (df ! 0) = Some 1 \<and> soil_raw (df ! 1) = Some 2 \<and> 1 < length df
     \<and> length (smooth soil_raw df) = 2
     \<and> smooth soil_raw df ! 1 = Some ((1 + 2) / 2))"
proof -
  let ?df = "[\<lparr>timestamp = 0, soil_raw = Some 1, light_raw = None, temp_c = None, hum = None, mood = ''happy''\<rparr>,
        \<lparr>timestamp = 60, soil_raw = Some 2, light_raw = None, temp_c = None, hum = None, mood = ''happy''\<rparr>]"
  have h1: "\<forall>r\<in>set ?df. soil_raw r \<noteq> None" by simp
  have h2: "1 < length ?df" by simp
  show ?thesis
    using C5_rolling_smoother [OF h1 h2] by (simp add: Let_def)
qed

subsection \<open>Forward and backward fill\<close>

lemma length_ffill_from [simp]: "length (ffill_from p xs) = length xs"
  by (induction p xs rule: ffill_from.induct) simp_all

lemma length_bfill [simp]: "length (bfill xs) = length xs"
  by (induction xs rule: bfill.induct) (auto split: list.splits)

lemma ffill_from_Some:
  "i < length xs \<Longrightarrow> xs ! i = Some v \<Longrightarrow> ffill_from p xs ! i = Some v"
  by (induction p xs arbitrary: i rule: ffill_from.induct) (auto simp: nth_Cons')

lemma ffill_from_gap:
  "i < length xs \<Longrightarrow> \<forall>k\<le>i. xs ! k = None \<Longrightarrow> ffill_from p xs ! i = p"
proof (induction p xs arbitrary: i rule: ffill_from.induct)
  case (2 prev xs)
  show ?case
  proof (cases i)
    case (Suc k)
    have "xs ! j = None" if "j \<le> k" for j
      using "2.prems"(2) [rule_format, of "Suc j"] that Suc by simp
    with 2 Suc have "ffill_from prev xs ! k = prev" by simp
    with Suc show ?thesis by simp
  qed simp
next
  case (3 prev v xs)
  from "3.prems"(2) [rule_format, of 0] show ?case by simp
qed simp

lemma ffill_from_prev:
  "i < length xs \<Longrightarrow> j < i \<Longrightarrow> xs ! j = Some v \<Longrightarrow> \<forall>k. j < k \<and> k \<le> i \<longrightarrow> xs ! k = None
   \<Longrightarrow> ffill_from p xs ! i = Some v"
proof (induction xs arbitrary: p i j)
  case Nil
  then show ?case by simp
next
  case (Cons x xs)
  from Cons.prems(1,2) obtain i' where i: "i = Suc i'" and i': "i' < length xs"
    by (cases i) auto
  show ?case
  proof (cases j)
    case 0
    with Cons.prems have x: "x = Some v" by simp
    have "\<forall>k\<le>i'. xs ! k = None"
      using Cons.prems(4) 0 i by auto
    then have "ffill_from (Some v) xs ! i' = Some v"
      by (rule ffill_from_gap [OF i'])
    then show ?thesis by (simp add: x i)
  next
    case (Suc j')
    have "ffill_from q xs ! i' = Some v" for q
    proof (rule Cons.IH [OF i'])
      show "j' < i'" using Cons.prems(2) Suc i by simp
      show "xs ! j' = Some v" using Cons.prems(3) Suc by simp
      show "\<forall>k. j' < k \<and> k \<le> i' \<longrightarrow> xs ! k = None"
        using Cons.prems(4) Suc i by auto
    qed
    then show ?thesis by (cases x) (simp_all add: i)
  qed
qed

lemma bfill_Suc: "i < length xs \<Longrightarrow> bfill (x # xs) ! Suc i = bfill xs ! i"
  by (cases x; cases "bfill xs") auto

lemma bfill_None_0: "xs \<noteq> [] \<Longrightarrow> bfill (None # xs) ! 0 = bfill xs ! 0"
  using length_bfill [of xs] by (cases "bfill xs") auto

lemma bfill_Some: "i < length xs \<Longrightarrow> xs ! i = Some v \<Longrightarrow> bfill xs ! i = Some v"
proof (induction xs arbitrary: i)
  case (Cons x xs)
  show ?case
  proof (cases i)
    case 0
    with Cons.prems show ?thesis by simp
  next
    case (Suc k)
    with Cons show ?thesis by (simp add: bfill_Suc del: bfill.simps)
  qed
qed simp

lemma bfill_next:
  "j < length xs \<Longrightarrow> i < j \<Longrightarrow> xs ! j = Some v \<Longrightarrow> \<forall>k. i \<le> k \<and> k < j \<longrightarrow> xs ! k = None
   \<Longrightarrow> bfill xs ! i = Some v"
proof (induction xs arbitrary: i j)
  case Nil
  then show ?case by simp
next
  case (Cons x xs)
  from Cons.prems(1,2) obtain j' where j: "j = Suc j'" and j': "j' < length xs"
    by (cases j) auto
  have at_j': "xs ! j' = Some v" using Cons.prems(3) j by simp
  show ?case
  proof (cases i)
    case 0
    with Cons.prems(4) j have x: "x = None" by auto
    have "bfill xs ! 0 = Some v"
    proof (cases j')
      case 0
      with at_j' j' show ?thesis by (simp add: bfill_Some)
    next
      case (Suc n)
      show ?thesis
      proof (rule Cons.IH [OF j'])
        show "0 < j'" using Suc by simp
        show "xs ! j' = Some v" by (rule at_j')
        show "\<forall>k. 0 \<le> k \<and> k < j' \<longrightarrow> xs ! k = None"
          using Cons.prems(4) j \<open>i = 0\<close> by auto
      qed
    qed
    moreover have "xs \<noteq> []" using j' by auto
    ultimately show ?thesis by (simp add: x 0 bfill_None_0 del: bfill.simps)
  next
    case (Suc i')
    have "bfill xs ! i' = Some v"
    proof (rule Cons.IH [OF j'])
      show "i' < j'" using Cons.prems(2) Suc j by simp
      show "xs ! j' = Some v" by (rule at_j')
      show "\<forall>k. i' \<le> k \<and> k < j' \<longrightarrow> xs ! k = None"
        using Cons.prems(4) j Suc by auto
    qed
    moreover have "i' < length xs" using Cons.prems(2) Suc j j' by simp
    ultimately show ?thesis by (simp add: Suc bfill_Suc del: bfill.simps)
  qed
qed

subsection \<open>Case A: absolute anchors\<close>

lemma unix_datetimes_Inr:
  assumes "unix_datetimes df = Inr col"
  shows "length col = length df"
    and "i < length df \<Longrightarrow> is_unix_timestamp (df ! i) \<Longrightarrow> col ! i = Some (timestamp (df ! i) * 1000000)"
    and "i < length df \<Longrightarrow> \<not> is_unix_timestamp (df ! i) \<Longrightarrow> col ! i = None"
  using assms by (auto simp: unix_datetimes_def split: if_splits)

lemma reconcile_A:
  assumes "list_ex is_unix_timestamp df" and "reconcile res df = Inr ax"
  obtains col where "unix_datetimes df = Inr col" and "datetime ax = bfill (ffill col)"
    and "time_label ax = map strftime (datetime ax)"
  using assms by (auto simp: reconcile_def datetime_A_def split: sum.splits)

lemma fill_absolute:
  assumes "unix_datetimes df = Inr col" and "i < length df" and "is_unix_timestamp (df ! i)"
  shows "bfill (ffill col) ! i = Some (timestamp (df ! i) * 1000000)"
proof -
  note col = unix_datetimes_Inr [OF assms(1)]
  have "ffill col ! i = Some (timestamp (df ! i) * 1000000)"
    unfolding ffill_def using assms(2,3) by (intro ffill_from_Some) (simp_all add: col)
  then show ?thesis
    using assms(2) by (intro bfill_Some) (simp_all add: ffill_def col)
qed

lemma fill_forward:
  assumes "unix_datetimes df = Inr col" and "i < length df" and "j < i"
    and "is_unix_timestamp (df ! j)"
    and "\<forall>k. j < k \<and> k \<le> i \<longrightarrow> \<not> is_unix_timestamp (df ! k)"
  shows "bfill (ffill col) ! i = Some (timestamp (df ! j) * 1000000)"
proof -
  note col = unix_datetimes_Inr [OF assms(1)]
  have "ffill col ! i = Some (timestamp (df ! j) * 1000000)"
    unfolding ffill_def
  proof (rule ffill_from_prev)
    show "i < length col" using assms(2) by (simp add: col)
    show "j < i" by (rule assms(3))
    show "col ! j = Some (timestamp (df ! j) * 1000000)"
      using assms(2-4) by (simp add: col)
    show "\<forall>k. j < k \<and> k \<le> i \<longrightarrow> col ! k = None"
      using assms(2,5) by (simp add: col)
  qed
  then show ?thesis
    using assms(2) by (intro bfill_Some) (simp_all add: ffill_def col)
qed

lemma ffill_before_first:
  assumes "unix_datetimes df = Inr col" and "i < length df"
    and "\<forall>k\<le>i. \<not> is_unix_timestamp (df ! k)"
  shows "ffill col ! i = None"
  unfolding ffill_def using assms(2,3) unix_datetimes_Inr [OF assms(1)]
  by (intro ffill_from_gap) simp_all

lemma fill_backward:
  assumes "unix_datetimes df = Inr col" and "j < length df" and "i < j"
    and "is_unix_timestamp (df ! j)"
    and "\<forall>k<j. \<not> is_unix_timestamp (df ! k)"
  shows "bfill (ffill col) ! i = Some (timestamp (df ! j) * 1000000)"
proof (rule bfill_next)
  note col = unix_datetimes_Inr [OF assms(1)]
  show "j < length (ffill col)" using assms(2) by (simp add: ffill_def col)
  show "i < j" by (rule assms(3))
  show "ffill col ! j = Some (timestamp (df ! j) * 1000000)"
    unfolding ffill_def using assms(2,4) by (intro ffill_from_Some) (simp_all add: col)
  show "\<forall>k. i \<le> k \<and> k < j \<longrightarrow> ffill col ! k = None"
  proof (intro allI impI)
    fix k assume k: "i \<le> k \<and> k < j"
    show "ffill col ! k = None"
      using assms(2,5) k by (intro ffill_before_first [OF assms(1)]) auto
  qed
qed

text \<open>
  C1. In a batch with at least one absolute record (Case A) the datetime of an absolute
  record is its timestamp read as milliseconds since the epoch; an uptime record takes the
  datetime of the nearest absolute record above it, and an uptime record above the first
  absolute record takes the datetime of that first one. The uptime value itself plays no
  part. This holds for the frame in any order, so for the sorted one.
\<close>

theorem C1_case_A:
  assumes "list_ex is_unix_timestamp df" and "reconcile res df = Inr ax" and "i < length df"
  shows "(is_unix_timestamp (df ! i) \<longrightarrow> datetime ax ! i = Some (timestamp (df ! i) * 1000000))
     \<and> (\<not> is_unix_timestamp (df ! i) \<and> j < i \<and> is_unix_timestamp (df ! j)
          \<and> (\<forall>k. j < k \<and> k < i \<longrightarrow> \<not> is_unix_timestamp (df ! k))
        \<longrightarrow> datetime ax ! i = Some (timestamp (df ! j) * 1000000))
     \<and> (i < j \<and> j < length df \<and> is_unix_timestamp (df ! j)
          \<and> (\<forall>k<j. \<not> is_unix_timestamp (df ! k))
        \<longrightarrow> datetime ax ! i = Some (timestamp (df ! j) * 1000000))"
proof -
  from assms(1,2) obtain col where col: "unix_datetimes df = Inr col"
    and ax: "datetime ax = bfill (ffill col)"
    by (rule reconcile_A)
  have "datetime ax ! i = Some (timestamp (df ! i) * 1000000)"
    if "is_unix_timestamp (df ! i)"
    unfolding ax using col assms(3) that by (rule fill_absolute)
  moreover have "datetime ax ! i = Some (timestamp (df ! j) * 1000000)"
    if "\<not> is_unix_timestamp (df ! i)" "j < i" "is_unix_timestamp (df ! j)"
      "\<forall>k. j < k \<and> k < i \<longrightarrow> \<not> is_unix_timestamp (df ! k)"
  proof -
    have "\<forall>k. j < k \<and> k \<le> i \<longrightarrow> \<not> is_unix_timestamp (df ! k)"
      using that(1,4) by (auto simp: le_less)
    with col assms(3) that(2,3) show ?thesis
      unfolding ax by (rule fill_forward)
  qed
  moreover have "datetime ax ! i = Some (timestamp (df ! j) * 1000000)"
    if "i < j" "j < length df" "is_unix_timestamp (df ! j)"
      "\<forall>k<j. \<not> is_unix_timestamp (df ! k)"
    unfolding ax using col that(2,1,3,4) by (rule fill_backward)
  ultimately show ?thesis by blast
qed


theorem C1_case_A_witness:
  "(let df = [\<lparr>timestamp = 5000, soil_raw = None, light_raw = None, temp_c = None, hum = None, mood = ''happy''\<rparr>,
        \<lparr>timestamp = 1700000000000, soil_raw = None, light_raw = None, temp_c = None, hum = None, mood = ''happy''\<rparr>,
        \<lparr>timestamp = 6000, soil_raw = None, light_raw = None, temp_c = None, hum = None, mood = ''happy''\<rparr>];
        col = [Some 1700000000000000000, Some 1700000000000000000, Some 1700000000000000000];
        ax = \<lparr>datetime = col, time_label = map strftime col\<rparr>
    in list_ex is_unix_timestamp df \<and> reconcile Nanoseconds df = Inr ax
     \<and> is_unix_timestamp (df ! 1) \<and> \<not> is_unix_timestamp (df ! 0) \<and> \<not> is_unix_timestamp (df ! 2)
     \<and> datetime ax ! 1 = Some (timestamp (df ! 1) * 1000000)
     \<and> datetime ax ! 2 = Some (timestamp (df ! 1) * 1000000)
     \<and> datetime ax ! 0 = Some (timestamp (df ! 1) * 1000000))"
proof -
  let ?df = "[\<lparr>timestamp = 5000, soil_raw = None, light_raw = None, temp_c = None, hum = None, mood = ''happy''\<rparr>,
        \<lparr>timestamp = 1700000000000, soil_raw = None, light_raw = None, temp_c = None, hum = None, mood = ''happy''\<rparr>,
        \<lparr>timestamp = 6000, soil_raw = None, light_raw = None, temp_c = None, hum = None, mood = ''happy''\<rparr>]"
  let ?col = "[Some 1700000000000000000, Some 1700000000000000000, Some (1700000000000000000::int)]"
  let ?ax = "\<lparr>datetime = ?col, time_label = map strftime ?col\<rparr>"
  have h1: "list_ex is_unix_timestamp ?df"
    by (simp add: is_unix_timestamp_def THRESHOLD_def)
  have h2: "reconcile Nanoseconds ?df = Inr ?ax"
    by (simp add: reconcile_def datetime_A_def unix_datetimes_def ffill_def in_bounds_def
        is_unix_timestamp_def THRESHOLD_def)
  have cls: "is_unix_timestamp (?df ! 1)" "\<not> is_unix_timestamp (?df ! 0)"
    "\<not> is_unix_timestamp (?df ! 2)"
    by (simp_all add: is_unix_timestamp_def THRESHOLD_def)
  have gap: "\<forall>k. 1 < k \<and> k < 2 \<longrightarrow> \<not> is_unix_timestamp (?df ! k)" by auto
  have first: "\<forall>k<1. \<not> is_unix_timestamp (?df ! k)" using cls(2) by simp
  have a: "datetime ?ax ! 1 = Some (timestamp (?df ! 1) * 1000000)"
    using C1_case_A [OF h1 h2, of 1 0] cls by simp
  have b: "datetime ?ax ! 2 = Some (timestamp (?df ! 1) * 1000000)"
    using C1_case_A [OF h1 h2, of 2 1] cls gap by simp
  have c: "datetime ?ax ! 0 = Some (timestamp (?df ! 1) * 1000000)"
    using C1_case_A [OF h1 h2, of 0 1] cls first by simp
  show ?thesis
    unfolding Let_def by (intro conjI h1 h2 cls a b c)
qed

subsection \<open>The sorted frame\<close>

lemma sorted_sort_values: "sorted (map timestamp (map snd (sort_values logs)))"
  using sorted_sort_key [of "\<lambda>row. timestamp (snd row)" logs]
  by (simp add: sort_values_def comp_def)

lemma analysis_Inr:
  assumes "analysis res logs = Inr rep"
  shows "logs \<noteq> []"
    and "frame rep = map snd (sort_values logs)"
    and "index rep = map fst (sort_values logs)"
    and "is_unix rep = map is_unix_timestamp (frame rep)"
    and "reconcile res (frame rep) = Inr (axis rep)"
    and "soil_smooth rep = smooth soil_raw (frame rep)"
    and "light_smooth rep = smooth light_raw (frame rep)"
    and "temp_smooth rep = smooth temp_c (frame rep)"
    and "hum_smooth rep = smooth hum (frame rep)"
    and "length (frame rep) = length logs"
    and "correlations rep = corr (frame rep)"
  using assms by (auto simp: analysis_def Let_def sort_values_def split: if_splits sum.splits)

lemma sorted_unix_mono:
  assumes "sorted (map timestamp df)" and "i \<le> j" and "j < length df"
    and "is_unix_timestamp (df ! i)"
  shows "is_unix_timestamp (df ! j)"
proof -
  have "map timestamp df ! i \<le> map timestamp df ! j"
    using assms(1-3) by (intro sorted_nth_mono) simp_all
  with assms(2-4) show ?thesis by (simp add: is_unix_timestamp_def)
qed

lemma first_unix_row:
  assumes "list_ex is_unix_timestamp df"
  obtains j where "j < length df" and "is_unix_timestamp (df ! j)"
    and "\<forall>k<j. \<not> is_unix_timestamp (df ! k)"
proof -
  let ?P = "\<lambda>n. n < length df \<and> is_unix_timestamp (df ! n)"
  from assms have "\<exists>n. ?P n" by (auto simp: list_ex_iff in_set_conv_nth)
  then have "?P (LEAST n. ?P n)" by (rule LeastI_ex)
  moreover have "\<not> is_unix_timestamp (df ! k)" if "k < (LEAST n. ?P n)" for k
    using not_less_Least [OF that] \<open>?P (LEAST n. ?P n)\<close> that by auto
  ultimately show ?thesis using that by blast
qed

lemma sorted_fill:
  assumes "sorted (map timestamp df)" and "unix_datetimes df = Inr col"
    and "j < length df" and "is_unix_timestamp (df ! j)"
    and "\<forall>k<j. \<not> is_unix_timestamp (df ! k)"
  shows "ffill col = col"
    and "bfill (ffill col) =
      map (\<lambda>r. Some (if is_unix_timestamp r then timestamp r * 1000000
                      else timestamp (df ! j) * 1000000)) df"
proof -
  note col = unix_datetimes_Inr [OF assms(2)]
  have before: "k < j" if "k < length df" "\<not> is_unix_timestamp (df ! k)" for k
  proof (rule ccontr)
    assume "\<not> k < j"
    then have "is_unix_timestamp (df ! k)"
      using sorted_unix_mono [OF assms(1) _ that(1) assms(4)] by simp
    with that(2) show False by simp
  qed
  show "ffill col = col"
  proof (rule nth_equalityI)
    show "length (ffill col) = length col" by (simp add: ffill_def)
  next
    fix k assume "k < length (ffill col)"
    then have k: "k < length df" by (simp add: ffill_def col)
    show "ffill col ! k = col ! k"
    proof (cases "is_unix_timestamp (df ! k)")
      case True
      with k show ?thesis
        unfolding ffill_def by (simp add: col ffill_from_Some)
    next
      case False
      have "\<forall>m\<le>k. \<not> is_unix_timestamp (df ! m)"
        using before [OF k False] assms(5) by auto
      with k False show ?thesis
        by (simp add: ffill_before_first [OF assms(2)] col)
    qed
  qed
  show "bfill (ffill col) =
      map (\<lambda>r. Some (if is_unix_timestamp r then timestamp r * 1000000
                      else timestamp (df ! j) * 1000000)) df"
  proof (rule nth_equalityI)
    show "length (bfill (ffill col)) = length (map (\<lambda>r. Some (if is_unix_timestamp r
        then timestamp r * 1000000 else timestamp (df ! j) * 1000000)) df)"
      by (simp add: ffill_def col)
  next
    fix k assume "k < length (bfill (ffill col))"
    then have k: "k < length df" by (simp add: ffill_def col)
    show "bfill (ffill col) ! k = map (\<lambda>r. Some (if is_unix_timestamp r
        then timestamp r * 1000000 else timestamp (df ! j) * 1000000)) df ! k"
    proof (cases "is_unix_timestamp (df ! k)")
      case True
      with k show ?thesis by (simp add: fill_absolute [OF assms(2)])
    next
      case False
      with k show ?thesis
        by (simp add: fill_backward [OF assms(2,3) before [OF k False] assms(4,5)])
    qed
  qed
qed

subsection \<open>Sorting and monotone datetimes\<close>

text \<open>
  C3. The frame that reconciliation and smoothing work on holds the records of the log in
  ascending order of the raw timestamp, and in a batch with at least one absolute record
  the datetimes assigned are non-decreasing along that order.
\<close>

theorem C3_sorted_monotone:
  assumes "analysis res logs = Inr rep"
  shows "sorted (map timestamp (frame rep))
     \<and> mset (frame rep) = mset (map snd logs)
     \<and> reconcile res (frame rep) = Inr (axis rep)
     \<and> soil_smooth rep = smooth soil_raw (frame rep)
     \<and> light_smooth rep = smooth light_raw (frame rep)
     \<and> temp_smooth rep = smooth temp_c (frame rep)
     \<and> hum_smooth rep = smooth hum (frame rep)
     \<and> (list_ex is_unix_timestamp (frame rep) \<longrightarrow>
          (\<exists>ds. datetime (axis rep) = map Some ds \<and> sorted ds))"
proof -
  note rep = analysis_Inr [OF assms]
  have srt: "sorted (map timestamp (frame rep))"
    unfolding rep(2) by (rule sorted_sort_values)
  have perm: "mset (frame rep) = mset (map snd logs)"
    by (simp add: rep(2) sort_values_def)
  have mono: "\<exists>ds. datetime (axis rep) = map Some ds \<and> sorted ds"
    if unix: "list_ex is_unix_timestamp (frame rep)"
  proof -
    let ?df = "frame rep"
    from unix rep(5) obtain col where col: "unix_datetimes ?df = Inr col"
      and ax: "datetime (axis rep) = bfill (ffill col)"
      by (rule reconcile_A)
    from unix obtain j where j: "j < length ?df" "is_unix_timestamp (?df ! j)"
      "\<forall>k<j. \<not> is_unix_timestamp (?df ! k)"
      by (rule first_unix_row)
    let ?f = "\<lambda>r. if is_unix_timestamp r then timestamp r * 1000000
                   else timestamp (?df ! j) * 1000000"
    have eq: "datetime (axis rep) = map Some (map ?f ?df)"
      unfolding ax sorted_fill(2) [OF srt col j] by (simp add: comp_def)
    have "?f (?df ! a) \<le> ?f (?df ! b)" if "a \<le> b" "b < length ?df" for a b
    proof -
      have ts: "timestamp (?df ! x) \<le> timestamp (?df ! y)" if "x \<le> y" "y < length ?df" for x y
        using sorted_nth_mono [OF srt, of x y] that by simp
      show ?thesis
      proof (cases "is_unix_timestamp (?df ! a)")
        case True
        then have "is_unix_timestamp (?df ! b)"
          using sorted_unix_mono [OF srt that] by simp
        with True ts [OF that] show ?thesis by simp
      next
        case False
        show ?thesis
        proof (cases "is_unix_timestamp (?df ! b)")
          case True
          have "j \<le> b" using j(3) True by (meson not_le)
          with True False ts [OF _ that(2), of j] show ?thesis by simp
        next
          case b: False
          with False show ?thesis by simp
        qed
      qed
    qed
    then have "sorted (map ?f ?df)"
      by (simp add: sorted_iff_nth_mono)
    with eq show ?thesis by blast
  qed
  from srt perm rep(5-9) mono show ?thesis by blast
qed

lemma sample_run:
  fixes a b :: entry
  defines "a \<equiv> \<lparr>timestamp = 5000, soil_raw = Some 1, light_raw = Some 10, temp_c = None,
      hum = Some 40, mood = ''happy''\<rparr>"
    and "b \<equiv> \<lparr>timestamp = 1700000000000, soil_raw = Some 2, light_raw = Some 30,
      temp_c = Some 21, hum = Some 40, mood = ''''\<rparr>"
  shows "analysis Nanoseconds [(''r2'', b), (''r1'', a)] =
    Inr \<lparr>index = [''r1'', ''r2''], frame = [a, b], is_unix = [False, True],
         axis = \<lparr>datetime = [Some 1700000000000000000, Some 1700000000000000000],
                 time_label = map strftime [Some 1700000000000000000, Some 1700000000000000000]\<rparr>,
         soil_smooth = [Some 1, Some 1.5], light_smooth = [Some 10, Some 20],
         temp_smooth = [None, Some 21], hum_smooth = [Some 40, Some 40],
         correlations = corr [a, b]\<rparr>"
proof -
  have ts: "timestamp a = 5000" "timestamp b = 1700000000000"
    by (simp_all add: a_def b_def)
  have srt: "sort_values [(''r2'', b), (''r1'', a)] = [(''r1'', a), (''r2'', b)]"
    by (simp add: sort_values_def ts)
  have rec: "reconcile Nanoseconds [a, b] =
      Inr \<lparr>datetime = [Some 1700000000000000000, Some 1700000000000000000],
           time_label = map strftime [Some 1700000000000000000, Some 1700000000000000000]\<rparr>"
    by (simp add: reconcile_def datetime_A_def unix_datetimes_def ffill_def in_bounds_def
        is_unix_timestamp_def THRESHOLD_def ts)
  have sm: "smooth soil_raw [a, b] = [Some 1, Some 1.5]"
    "smooth light_raw [a, b] = [Some 10, Some 20]"
    "smooth temp_c [a, b] = [None, Some 21]"
    "smooth hum [a, b] = [Some 40, Some 40]"
    by (simp_all add: smooth_def rolling_mean_def window_mean_def a_def b_def)
  have cls: "is_unix_timestamp a = False" "is_unix_timestamp b = True"
    by (simp_all add: is_unix_timestamp_def THRESHOLD_def ts)
  have md: "mood a = ''happy''" "mood b = ''''"
    by (simp_all add: a_def b_def)
  show ?thesis
    by (simp add: analysis_def Let_def srt rec sm cls md)
qed


theorem C3_sorted_monotone_witness:
  "(let a = \<lparr>timestamp = 5000, soil_raw = Some 1, light_raw = Some 10, temp_c = None,
               hum = Some 40, mood = ''happy''\<rparr>;
        b = \<lparr>timestamp = 1700000000000, soil_raw = Some 2, light_raw = Some 30,
               temp_c = Some 21, hum = Some 40, mood = ''''\<rparr>
    in map_sum id frame (analysis Nanoseconds [(''r2'', b), (''r1'', a)]) = Inr [a, b]
     \<and> sorted (map timestamp [a, b])
     \<and> map_sum id (\<lambda>rep. datetime (axis rep)) (analysis Nanoseconds [(''r2'', b), (''r1'', a)]) =
         Inr (map Some [1700000000000000000, 1700000000000000000])
     \<and> list_ex is_unix_timestamp [a, b]
     \<and> sorted [1700000000000000000, 1700000000000000000 :: int])"
proof -
  note run = sample_run
  note c3 = C3_sorted_monotone [OF run]
  from c3 have "sorted (map timestamp [\<lparr>timestamp = 5000, soil_raw = Some 1,
      light_raw = Some 10, temp_c = None, hum = Some 40, mood = ''happy''\<rparr>,
      \<lparr>timestamp = 1700000000000, soil_raw = Some 2, light_raw = Some 30,
      temp_c = Some 21, hum = Some 40, mood = ''''\<rparr>])"
    by simp
  then show ?thesis
    by (simp add: Let_def run is_unix_timestamp_def THRESHOLD_def)
qed

subsection \<open>Uptime records of a sorted batch\<close>

text \<open>
  C10. In the sorted frame of a batch with at least one absolute record every uptime record
  stands above every absolute record, since its timestamp is at most 10_000_000_000. So the
  forward fill leaves the column as it was, and every uptime record gets the datetime of the
  first absolute record from the backward fill.
\<close>

theorem C10_uptime_before_absolute:
  assumes "analysis res logs = Inr rep" and "list_ex is_unix_timestamp (frame rep)"
    and "unix_datetimes (frame rep) = Inr col"
    and "i < length (frame rep)" and "\<not> is_unix_timestamp (frame rep ! i)"
  shows "(\<forall>j<length (frame rep). is_unix_timestamp (frame rep ! j) \<longrightarrow> i < j)
     \<and> ffill col = col \<and> ffill col ! i = None
     \<and> (\<forall>first. find is_unix_timestamp (frame rep) = Some first \<longrightarrow>
           datetime (axis rep) ! i = Some (timestamp first * 1000000))"
proof -
  let ?df = "frame rep"
  note rep = analysis_Inr [OF assms(1)]
  have srt: "sorted (map timestamp ?df)"
    unfolding rep(2) by (rule sorted_sort_values)
  have before: "i < j" if "j < length ?df" "is_unix_timestamp (?df ! j)" for j
  proof (rule ccontr)
    assume "\<not> i < j"
    then have "is_unix_timestamp (?df ! i)"
      using sorted_unix_mono [OF srt _ assms(4) that(2)] by simp
    with assms(5) show False by simp
  qed
  from assms(2) obtain j where j: "j < length ?df" "is_unix_timestamp (?df ! j)"
    "\<forall>k<j. \<not> is_unix_timestamp (?df ! k)"
    by (rule first_unix_row)
  have same: "ffill col = col"
    by (rule sorted_fill(1) [OF srt assms(3) j])
  have none: "ffill col ! i = None"
    unfolding same using unix_datetimes_Inr(3) [OF assms(3,4,5)] .
  from assms(2) rep(5) obtain col' where "unix_datetimes ?df = Inr col'"
    and "datetime (axis rep) = bfill (ffill col')"
    by (rule reconcile_A)
  with assms(3) have ax: "datetime (axis rep) = bfill (ffill col)" by simp
  have "datetime (axis rep) ! i = Some (timestamp first * 1000000)"
    if "find is_unix_timestamp ?df = Some first" for first
  proof -
    from that obtain m where m: "m < length ?df" "is_unix_timestamp (?df ! m)"
      "first = ?df ! m" "\<forall>k<m. \<not> is_unix_timestamp (?df ! k)"
      unfolding find_Some_iff by blast
    show ?thesis
      unfolding ax m(3)
      by (rule fill_backward [OF assms(3) m(1) before [OF m(1,2)] m(2,4)])
  qed
  with before same none show ?thesis by blast
qed

theorem C10_uptime_before_absolute_witness:
  "(let a = \<lparr>timestamp = 5000, soil_raw = Some 1, light_raw = Some 10, temp_c = None,
               hum = Some 40, mood = ''happy''\<rparr>;
        b = \<lparr>timestamp = 1700000000000, soil_raw = Some 2, light_raw = Some 30,
               temp_c = Some 21, hum = Some 40, mood = ''''\<rparr>
    in map_sum id frame (analysis Nanoseconds [(''r2'', b), (''r1'', a)]) = Inr [a, b]
     \<and> list_ex is_unix_timestamp [a, b]
     \<and> unix_datetimes [a, b] = Inr [None, Some 1700000000000000000]
     \<and> \<not> is_unix_timestamp ([a, b] ! 0) \<and> is_unix_timestamp ([a, b] ! 1)
     \<and> ffill [None, Some 1700000000000000000] = [None, Some (1700000000000000000 :: int)]
     \<and> find is_unix_timestamp [a, b] = Some b
     \<and> map_sum id (\<lambda>rep. datetime (axis rep) ! 0) (analysis Nanoseconds [(''r2'', b), (''r1'', a)]) =
         Inr (Some (timestamp b * 1000000)))"
proof -
  let ?a = "\<lparr>timestamp = 5000, soil_raw = Some 1, light_raw = Some 10, temp_c = None,
               hum = Some 40, mood = ''happy''\<rparr>"
  let ?b = "\<lparr>timestamp = 1700000000000, soil_raw = Some 2, light_raw = Some 30,
               temp_c = Some 21, hum = Some 40, mood = ''''\<rparr>"
  note run = sample_run
  have h2: "list_ex is_unix_timestamp [?a, ?b]"
    by (simp add: is_unix_timestamp_def THRESHOLD_def)
  have h3: "unix_datetimes [?a, ?b] = Inr [None, Some 1700000000000000000]"
    by (simp add: unix_datetimes_def is_unix_timestamp_def THRESHOLD_def in_bounds_def)
  have h5: "\<not> is_unix_timestamp ([?a, ?b] ! 0)"
    by (simp add: is_unix_timestamp_def THRESHOLD_def)
  have fnd: "find is_unix_timestamp [?a, ?b] = Some ?b"
    by (simp add: is_unix_timestamp_def THRESHOLD_def)
  from C10_uptime_before_absolute [OF run, of "[None, Some 1700000000000000000]" 0]
  have "ffill [None, Some 1700000000000000000] = [None, Some (1700000000000000000 :: int)]"
    using h2 h3 h5 by simp
  then show ?thesis
    using h2 h3 h5 fnd by (simp add: Let_def run is_unix_timestamp_def THRESHOLD_def)
qed

subsection \<open>Case B: elapsed time\<close>

lemma fold_min_Min: "fold min (map timestamp rs) (timestamp r) = Min (timestamp ` set (r # rs))"
  by (metis Min.set_eq_fold list.simps(9) set_map)

lemma seconds_from_start_nth:
  assumes "i < length df"
  shows "seconds_from_start df ! i = int64 (timestamp (df ! i) - Min (timestamp ` set df))"
proof (cases df)
  case Nil
  with assms show ?thesis by simp
next
  case (Cons r rs)
  have "seconds_from_start df = map (\<lambda>x. int64 (timestamp x - Min (timestamp ` set df))) df"
    unfolding Cons seconds_from_start.simps Let_def fold_min_Min ..
  with assms show ?thesis by simp
qed

lemma length_seconds_from_start [simp]: "length (seconds_from_start df) = length df"
  by (cases df) (simp_all add: Let_def)

lemma int64_cases:
  assumes "0 \<le> d" and "d < 18446744073709551616"
  shows "int64 d = (if d < 9223372036854775808 then d else d - 18446744073709551616)"
proof (cases "d < 9223372036854775808")
  case True
  with assms have "(d + 9223372036854775808) mod 18446744073709551616 = d + 9223372036854775808"
    by (intro mod_pos_pos_trivial) simp_all
  with True show ?thesis by (simp add: int64_def)
next
  case False
  have "(d + 9223372036854775808) mod 18446744073709551616 =
      (d - 9223372036854775808 + 18446744073709551616) mod 18446744073709551616"
    by (rule arg_cong [where f = "\<lambda>x. x mod 18446744073709551616"]) simp
  also have "\<dots> = (d - 9223372036854775808) mod 18446744073709551616"
    by (rule mod_add_self2)
  also have "\<dots> = d - 9223372036854775808"
    using False assms by (intro mod_pos_pos_trivial) simp_all
  finally show ?thesis using False by (simp add: int64_def)
qed

lemma ticks_ge: "1000000 \<le> ticks res"
  by (cases res) simp_all

text \<open>The elapsed time of a frame of int64 uptime timestamps whose datetime fits the column
  has not wrapped around, and is a float.\<close>

lemma elapsed_no_wrap:
  assumes "- 9223372036854775808 \<le> m" and "m \<le> t" and "t \<le> 10000000000"
    and "in_bounds (int64 (t - m) * ticks res)"
  shows "int64 (t - m) = t - m" and "t - m < 9007199254740992"
proof -
  let ?d = "t - m"
  have d: "0 \<le> ?d" "?d < 18446744073709551616"
    using assms(1-3) by simp_all
  note c = int64_cases [OF d]
  have small: "int64 ?d * 1000000 \<le> 9223372036854775807 \<and> - 9223372036854775807 \<le> int64 ?d * 1000000"
  proof (cases "0 \<le> int64 ?d")
    case True
    then have "int64 ?d * 1000000 \<le> int64 ?d * ticks res"
      using ticks_ge [of res] by (intro mult_left_mono) simp_all
    with assms(4) True show ?thesis unfolding in_bounds_def by linarith
  next
    case False
    then have "int64 ?d * ticks res \<le> int64 ?d * 1000000"
      using ticks_ge [of res] by (intro mult_left_mono_neg) simp_all
    with assms(4) False show ?thesis unfolding in_bounds_def by linarith
  qed
  show eq: "int64 ?d = ?d"
  proof (cases "?d < 9223372036854775808")
    case True
    with c show ?thesis by simp
  next
    case False
    with c have "int64 ?d = ?d - 18446744073709551616" by simp
    with small assms(1-3) show ?thesis by simp
  qed
  from small show "?d < 9007199254740992"
    unfolding eq by simp
qed

lemma datetime_B_nth:
  assumes "datetime_B res df = Inr col" and "i < length df"
  shows "col ! i = Some (FIXED_EPOCH + seconds_from_start df ! i * 1000000000)"
    and "in_bounds (seconds_from_start df ! i * ticks res)"
proof -
  let ?ok = "\<lambda>s. in_bounds (s * ticks res) \<and> in_bounds (1735689600 * ticks res + s * ticks res)"
  from assms(1) have ok: "list_all ?ok (seconds_from_start df)"
    and col: "col = map (\<lambda>s. Some (FIXED_EPOCH + s * 1000000000)) (seconds_from_start df)"
    by (auto simp: datetime_B_def split: if_splits)
  from col assms(2) show "col ! i = Some (FIXED_EPOCH + seconds_from_start df ! i * 1000000000)"
    by simp
  from ok assms(2) have "?ok (seconds_from_start df ! i)"
    by (simp add: list_all_length)
  then show "in_bounds (seconds_from_start df ! i * ticks res)"
    by simp
qed

lemma case_B_elapsed:
  assumes "\<not> list_ex is_unix_timestamp df"
    and "\<forall>r\<in>set df. - 9223372036854775808 \<le> timestamp r"
    and "datetime_B res df = Inr col" and "i < length df"
  shows "seconds_from_start df ! i = timestamp (df ! i) - Min (timestamp ` set df)"
    and "0 \<le> timestamp (df ! i) - Min (timestamp ` set df)"
    and "timestamp (df ! i) - Min (timestamp ` set df) < 9007199254740992"
proof -
  let ?m = "Min (timestamp ` set df)"
  have mem: "df ! i \<in> set df" using assms(4) by simp
  have "?m \<in> timestamp ` set df"
    using mem by (intro Min_in) auto
  with assms(2) have lo: "- 9223372036854775808 \<le> ?m" by auto
  have le: "?m \<le> timestamp (df ! i)"
    using mem by (intro Min_le) auto
  have hi: "timestamp (df ! i) \<le> 10000000000"
    using assms(1) mem by (auto simp: list_ex_iff is_unix_timestamp_def THRESHOLD_def)
  have "in_bounds (int64 (timestamp (df ! i) - ?m) * ticks res)"
    using datetime_B_nth(2) [OF assms(3,4)] by (simp add: seconds_from_start_nth assms(4))
  note nw = elapsed_no_wrap [OF lo le hi this]
  show "seconds_from_start df ! i = timestamp (df ! i) - ?m"
    by (simp add: seconds_from_start_nth assms(4) nw(1))
  show "0 \<le> timestamp (df ! i) - ?m" using le by simp
  show "timestamp (df ! i) - ?m < 9007199254740992" by (rule nw(2))
qed

text \<open>The float division: the quotient rounded to the nearest multiple of the spacing of
  binary64 numbers around it, ties to the even multiple.\<close>

lemma pow2_powi: "pow2 e = 2 powi e"
  by (simp add: pow2_def power_int_def power_inverse inverse_eq_divide power_one_over)

lemma round_half_even_nearest:
  shows "\<bar>x - of_int (round_half_even x)\<bar> \<le> 1 / 2"
    and "\<bar>x - of_int (round_half_even x)\<bar> = 1 / 2 \<Longrightarrow> even (round_half_even x)"
proof -
  have fl: "of_int \<lfloor>x\<rfloor> \<le> x" "x < of_int \<lfloor>x\<rfloor> + 1"
    by linarith+
  show "\<bar>x - of_int (round_half_even x)\<bar> \<le> 1 / 2"
    using fl by (auto simp: round_half_even_def Let_def)
  show "even (round_half_even x)" if "\<bar>x - of_int (round_half_even x)\<bar> = 1 / 2"
    using fl that by (auto simp: round_half_even_def Let_def split: if_splits)
qed

lemma round_half_even_nonneg: "0 \<le> x \<Longrightarrow> 0 \<le> round_half_even x"
  by (auto simp: round_half_even_def Let_def)

lemma bitlen_powi:
  assumes "0 < a"
  shows "(2::rat) powi (bitlen a - 1) \<le> of_int a" and "(of_int a :: rat) < 2 powi bitlen a"
proof -
  from bitlen_bounds [OF assms]
  have lo: "2 ^ nat (bitlen a - 1) \<le> a" and hi: "a < 2 ^ nat (bitlen a)"
    by simp_all
  have pos: "1 \<le> bitlen a"
    using assms by (simp add: bitlen_alt_def)
  from lo have "(of_int (2 ^ nat (bitlen a - 1)) :: rat) \<le> of_int a"
    by (simp only: of_int_le_iff)
  then show "(2::rat) powi (bitlen a - 1) \<le> of_int a"
    using pos by (simp add: power_int_def)
  from hi have "(of_int a :: rat) < of_int (2 ^ nat (bitlen a))"
    by (simp only: of_int_less_iff)
  then show "(of_int a :: rat) < 2 powi bitlen a"
    using pos by (simp add: power_int_def)
qed

lemma binade:
  fixes a b :: int
  assumes "0 < a" and "0 < b"
  defines "q \<equiv> (of_int a / of_int b :: rat)"
    and "k \<equiv> bitlen a - bitlen b"
  defines "e \<equiv> (if 2 powi k \<le> q then k else k - 1)"
  shows "2 powi e \<le> q" and "q < 2 powi (e + 1)"
proof -
  note A = bitlen_powi [OF assms(1)] and B = bitlen_powi [OF assms(2)]
  have bpos: "(0::rat) < of_int b" using assms(2) by simp
  have "(2::rat) powi (bitlen a - 1) / 2 powi bitlen b < of_int a / of_int b"
    using A(1) B(2) bpos by (intro frac_less2) (simp_all add: zero_less_power_int)
  moreover have "(2::rat) powi (bitlen a - 1) / 2 powi bitlen b = 2 powi (k - 1)"
  proof -
    have "k - 1 = (bitlen a - 1) - bitlen b" by (simp add: k_def)
    then show ?thesis by (simp only: power_int_diff [of "2::rat", simplified])
  qed
  ultimately have lo: "(2::rat) powi (k - 1) < q"
    by (simp add: q_def)
  have "(of_int a :: rat) / of_int b < 2 powi bitlen a / 2 powi (bitlen b - 1)"
    using A(2) B(1) assms(1) by (intro frac_less) (simp_all add: zero_less_power_int)
  moreover have "(2::rat) powi bitlen a / 2 powi (bitlen b - 1) = 2 powi (k + 1)"
  proof -
    have "k + 1 = bitlen a - (bitlen b - 1)" by (simp add: k_def)
    then show ?thesis by (simp only: power_int_diff [of "2::rat", simplified])
  qed
  ultimately have hi: "q < (2::rat) powi (k + 1)"
    by (simp add: q_def)
  show "2 powi e \<le> q"
    using lo by (simp add: e_def)
  show "q < 2 powi (e + 1)"
    using hi by (auto simp: e_def not_le)
qed

lemma true_divide_rounds:
  fixes a b :: int
  assumes "0 < a" and "0 < b"
  shows "\<exists>e m. 2 powi (e + 52) \<le> (of_int a / of_int b :: rat)
     \<and> (of_int a / of_int b :: rat) < 2 powi (e + 53)
     \<and> true_divide a b = of_int m * 2 powi e
     \<and> \<bar>of_int a / of_int b / 2 powi e - (of_int m :: rat)\<bar> \<le> 1 / 2
     \<and> (\<bar>of_int a / of_int b / 2 powi e - (of_int m :: rat)\<bar> = 1 / 2 \<longrightarrow> even m)"
proof -
  define q where "q = (of_int a / of_int b :: rat)"
  define k where "k = bitlen a - bitlen b"
  define E where "E = (if 2 powi k \<le> q then k else k - 1)"
  define m where "m = round_half_even (q / 2 powi (E - 52))"
  have td: "true_divide a b = of_int m * 2 powi (E - 52)"
    using assms by (simp add: true_divide_def Let_def pow2_powi q_def k_def E_def m_def)
  note bn = binade [OF assms, folded q_def k_def, folded E_def]
  have "E - 52 + 52 = E" and "E - 52 + 53 = E + 1" by simp_all
  with bn have lo: "2 powi (E - 52 + 52) \<le> q" and hi: "q < 2 powi (E - 52 + 53)"
    by (simp_all add: add.commute)
  note near = round_half_even_nearest [of "q / 2 powi (E - 52)", folded m_def]
  show ?thesis
    using td lo hi near unfolding q_def by blast
qed

lemma true_divide_nonneg: "0 \<le> a \<Longrightarrow> 0 < b \<Longrightarrow> 0 \<le> true_divide a b"
  by (auto simp: true_divide_def Let_def pow2_powi intro!: mult_nonneg_nonneg
      round_half_even_nonneg divide_nonneg_nonneg)

text \<open>The formatting: the decimal numeral of the nearest number of tenths.\<close>

lemma digit_value: "k < 10 \<Longrightarrow> (of_char (digit k) :: nat) = 48 + k"
proof -
  assume "k < 10"
  then have "k = 0 \<or> k = 1 \<or> k = 2 \<or> k = 3 \<or> k = 4 \<or> k = 5 \<or> k = 6 \<or> k = 7 \<or> k = 8 \<or> k = 9"
    by arith
  then show ?thesis by (elim disjE) (simp_all add: digit_def)
qed

lemma digit_char: "k < 10 \<Longrightarrow> digit k \<in> set ''0123456789''"
  unfolding digit_def by (rule nth_mem) simp

lemma digits_decode:
  "foldl (\<lambda>v c. 10 * v + (of_char c - 48)) 0 (digits n) = n"
proof (induction n rule: digits.induct)
  case (1 n)
  show ?case
  proof (cases "n < 10")
    case True
    then show ?thesis by (simp add: digits.simps [of n] digit_value)
  next
    case False
    with 1 show ?thesis by (simp add: digits.simps [of n] digit_value)
  qed
qed

lemma digits_chars: "set (digits n) \<subseteq> set ''0123456789''"
proof (induction n rule: digits.induct)
  case (1 n)
  show ?case
  proof (cases "n < 10")
    case True
    then show ?thesis using digit_char [of n] by (simp add: digits.simps [of n])
  next
    case False
    with 1 digit_char [of "n mod 10"] show ?thesis by (simp add: digits.simps [of n])
  qed
qed

lemma digits_nonempty: "digits n \<noteq> []"
  by (subst digits.simps) simp

lemma digits_leading: "0 < n \<Longrightarrow> hd (digits n) \<noteq> CHR ''0''"
proof (induction n rule: digits.induct)
  case (1 n)
  show ?case
  proof (cases "n < 10")
    case True
    with "1.prems" digit_value [of n] have "(of_char (digit n) :: nat) \<noteq> 48" by simp
    then have "digit n \<noteq> CHR ''0''" by auto
    with True show ?thesis by (simp add: digits.simps [of n])
  next
    case False
    then have "0 < n div 10" by simp
    with 1 False have "hd (digits (n div 10)) \<noteq> CHR ''0''" by simp
    with False show ?thesis by (simp add: digits.simps [of n] digits_nonempty)
  qed
qed

lemma format_1f_decimal:
  assumes "0 \<le> x"
  shows "\<exists>n ip f. format_1f x = ip @ ''.'' @ [f]
     \<and> \<bar>x * 10 - of_nat n\<bar> \<le> 1 / 2 \<and> (\<bar>x * 10 - of_nat n\<bar> = 1 / 2 \<longrightarrow> even n)
     \<and> foldl (\<lambda>v c. 10 * v + (of_char c - 48)) 0 ip = n div 10
     \<and> ip \<noteq> [] \<and> set ip \<subseteq> set ''0123456789'' \<and> (ip = ''0'' \<or> hd ip \<noteq> CHR ''0'')
     \<and> (of_char f :: nat) = 48 + n mod 10"
proof -
  define r where "r = round_half_even (x * 10)"
  define n where "n = nat r"
  have r: "0 \<le> r" unfolding r_def using assms by (intro round_half_even_nonneg) simp
  then have rn: "(of_int r :: rat) = of_nat n" by (simp add: n_def)
  note near = round_half_even_nearest [of "x * 10", folded r_def, unfolded rn]
  have ev: "even n" if "\<bar>x * 10 - of_nat n\<bar> = 1 / 2"
    using near(2) [OF that] r by (simp add: n_def even_nat_iff)
  have fmt: "format_1f x = digits (n div 10) @ ''.'' @ [digit (n mod 10)]"
    using assms by (simp add: format_1f_def Let_def r_def n_def)
  have lead: "digits (n div 10) = ''0'' \<or> hd (digits (n div 10)) \<noteq> CHR ''0''"
  proof (cases "n div 10 = 0")
    case True
    then show ?thesis by (simp add: digits.simps [of 0] digit_def)
  next
    case False
    then show ?thesis using digits_leading [of "n div 10"] by simp
  qed
  have frac: "(of_char (digit (n mod 10)) :: nat) = 48 + n mod 10"
    by (rule digit_value) simp
  from fmt near(1) ev digits_decode [of "n div 10"] digits_nonempty [of "n div 10"]
    digits_chars [of "n div 10"] lead frac
  show ?thesis by blast
qed

text \<open>Examples, evaluated.\<close>

lemma floor_rat_numeral: "\<lfloor>(numeral a :: rat) / numeral b\<rfloor> = numeral a div numeral b"
  using floor_divide_of_int_eq [of "numeral a" "numeral b", where ?'a = rat] by simp

lemma bitlen_examples:
  "bitlen 180 = 8" "bitlen 540 = 10" "bitlen 900 = 10" "bitlen 3600 = 12" "bitlen 7200 = 13"
  by (simp_all add: compute_bitlen)

lemma true_divide_examples:
  "true_divide 0 3600 = 0" "true_divide 3600 3600 = 1" "true_divide 7200 3600 = 2"
  "true_divide 180 3600 = 3602879701896397 / 72057594037927936"
  "true_divide 540 3600 = 5404319552844595 / 36028797018963968"
  "true_divide 900 3600 = 1 / 4"
  by (simp_all add: true_divide_def bitlen_examples pow2_def round_half_even_def Let_def
      floor_rat_numeral)


lemma format_1f_examples:
  "format_1f 0 = ''0.0''" "format_1f 1 = ''1.0''" "format_1f 2 = ''2.0''"
  "format_1f (3602879701896397 / 72057594037927936) = ''0.1''"
  "format_1f (5404319552844595 / 36028797018963968) = ''0.1''"
  "format_1f (1 / 4) = ''0.2''"
  by (simp_all add: format_1f_def round_half_even_def digits.simps digit_def Let_def
      floor_rat_numeral)


lemma int64_examples:
  "int64 0 = 0" "int64 180 = 180" "int64 540 = 540" "int64 900 = 900" "int64 3600 = 3600"
  "int64 7200 = 7200"
  by (simp_all add: int64_def)

lemma seconds_examples:
  "seconds_from_start [r\<lparr>timestamp := 0\<rparr>, r\<lparr>timestamp := 180\<rparr>, r\<lparr>timestamp := 540\<rparr>,
      r\<lparr>timestamp := 900\<rparr>] = [0, 180, 540, 900]"
  "seconds_from_start [r\<lparr>timestamp := 0\<rparr>, r\<lparr>timestamp := 3600\<rparr>, r\<lparr>timestamp := 7200\<rparr>] =
     [0, 3600, 7200]"
  by (simp_all add: int64_examples)

lemma hour_labels_example:
  "hour_labels [r\<lparr>timestamp := 0\<rparr>, r\<lparr>timestamp := 180\<rparr>, r\<lparr>timestamp := 540\<rparr>,
      r\<lparr>timestamp := 900\<rparr>] = [''0.0h'', ''0.1h'', ''0.1h'', ''0.2h'']"
  unfolding hour_labels_def hours_from_start_def seconds_examples
  by (simp add: true_divide_examples format_1f_examples)

lemma case_B_example:
  "reconcile res [r\<lparr>timestamp := 0\<rparr>, r\<lparr>timestamp := 3600\<rparr>, r\<lparr>timestamp := 7200\<rparr>] =
     Inr \<lparr>datetime = [Some 1735689600000000000, Some 1735693200000000000, Some 1735696800000000000],
          time_label = [Some ''0.0h'', Some ''1.0h'', Some ''2.0h'']\<rparr>"
proof -
  let ?df = "[r\<lparr>timestamp := 0\<rparr>, r\<lparr>timestamp := 3600\<rparr>, r\<lparr>timestamp := 7200\<rparr>]"
  have cls: "\<not> list_ex is_unix_timestamp ?df"
    by (simp add: is_unix_timestamp_def THRESHOLD_def)
  have lab: "hour_labels ?df = [''0.0h'', ''1.0h'', ''2.0h'']"
    unfolding hour_labels_def hours_from_start_def seconds_examples
    by (simp add: true_divide_examples format_1f_examples)
  have dt: "datetime_B res ?df =
      Inr [Some 1735689600000000000, Some 1735693200000000000, Some 1735696800000000000]"
    unfolding datetime_B_def seconds_examples
    by (cases res) (simp_all add: in_bounds_def FIXED_EPOCH_def)
  show ?thesis
    unfolding reconcile_def using cls by (simp add: dt lab)
qed

text \<open>
  C4. In a batch without an absolute record (Case B) every record's datetime is FIXED_EPOCH,
  2025-01-01, plus the elapsed seconds, where elapsed is the timestamp minus the least
  timestamp of the batch. Its label is what \<open>f'{elapsed/3600:.1f}h'\<close> prints: the quotient
  is the binary64 float nearest to elapsed/3600 (the quotient rounded to the spacing of the
  floats around it, ties to even), and the label is the decimal numeral of the number of
  tenths nearest to that float (ties to even), a point before its last digit, and the
  letter h. This holds at either datetime resolution, for int64 timestamps, whenever line
  52 does not raise; the elapsed seconds are then below \<open>2^53\<close>, so they are floats
  themselves. Timestamps 0, 3600, 7200 get the labels 0.0h, 1.0h, 2.0h; 180, 540 and 900
  seconds get 0.1h, 0.1h and 0.2h.
\<close>

theorem C4_case_B:
  assumes "\<not> list_ex is_unix_timestamp df"
    and "\<forall>r\<in>set df. - 9223372036854775808 \<le> timestamp r"
    and "reconcile res df = Inr ax" and "i < length df"
  shows "(let elapsed = timestamp (df ! i) - Min (timestamp ` set df);
           q = (of_int elapsed / 3600 :: rat) in
       datetime ax ! i = Some (FIXED_EPOCH + elapsed * 1000000000)
     \<and> 0 \<le> elapsed \<and> elapsed < 2 ^ 53
     \<and> (\<exists>(hours :: rat) (n :: nat) ip f. time_label ax ! i = Some (ip @ ''.'' @ [f] @ ''h'')
          \<and> (elapsed = 0 \<longrightarrow> hours = 0)
          \<and> (0 < elapsed \<longrightarrow>
               (\<exists>e m. 2 powi (e + 52) \<le> q \<and> q < 2 powi (e + 53)
                  \<and> hours = of_int m * 2 powi e
                  \<and> \<bar>q / 2 powi e - of_int m\<bar> \<le> 1 / 2
                  \<and> (\<bar>q / 2 powi e - of_int m\<bar> = 1 / 2 \<longrightarrow> even m)))
          \<and> \<bar>hours * 10 - of_nat n\<bar> \<le> 1 / 2
          \<and> (\<bar>hours * 10 - of_nat n\<bar> = 1 / 2 \<longrightarrow> even n)
          \<and> foldl (\<lambda>v c. 10 * v + (of_char c - 48)) 0 ip = n div 10
          \<and> ip \<noteq> [] \<and> set ip \<subseteq> set ''0123456789'' \<and> (ip = ''0'' \<or> hd ip \<noteq> CHR ''0'')
          \<and> (of_char f :: nat) = 48 + n mod 10))
     \<and> FIXED_EPOCH = 1735689600 * 1000000000
     \<and> map_sum id time_label (reconcile res
           [r\<lparr>timestamp := 0\<rparr>, r\<lparr>timestamp := 3600\<rparr>, r\<lparr>timestamp := 7200\<rparr>]) =
         Inr [Some ''0.0h'', Some ''1.0h'', Some ''2.0h'']
     \<and> hour_labels [r\<lparr>timestamp := 0\<rparr>, r\<lparr>timestamp := 180\<rparr>, r\<lparr>timestamp := 540\<rparr>,
           r\<lparr>timestamp := 900\<rparr>] = [''0.0h'', ''0.1h'', ''0.1h'', ''0.2h'']"
proof -
  define elapsed where "elapsed = timestamp (df ! i) - Min (timestamp ` set df)"
  define q where "q = (of_int elapsed / 3600 :: rat)"
  define hours where "hours = true_divide elapsed 3600"
  from assms(1,3) obtain col where col: "datetime_B res df = Inr col"
    and ax: "ax = \<lparr>datetime = col, time_label = map Some (hour_labels df)\<rparr>"
    by (auto simp: reconcile_def split: sum.splits)
  note el = case_B_elapsed [OF assms(1,2) col assms(4), folded elapsed_def]
  have dt: "datetime ax ! i = Some (FIXED_EPOCH + elapsed * 1000000000)"
    using datetime_B_nth(1) [OF col assms(4)] by (simp add: ax el(1))
  have range: "0 \<le> elapsed" "elapsed < 2 ^ 53"
    using el(2,3) by simp_all
  have lab: "time_label ax ! i = Some (format_1f hours @ ''h'')"
    using assms(4) by (simp add: ax hour_labels_def hours_from_start_def el(1) hours_def)
  have zero: "hours = 0" if "elapsed = 0"
    using that by (simp add: hours_def true_divide_def)
  have flt: "\<exists>e m. 2 powi (e + 52) \<le> q \<and> q < 2 powi (e + 53)
                  \<and> hours = of_int m * 2 powi e
                  \<and> \<bar>q / 2 powi e - of_int m\<bar> \<le> 1 / 2
                  \<and> (\<bar>q / 2 powi e - of_int m\<bar> = 1 / 2 \<longrightarrow> even m)" if "0 < elapsed"
    using true_divide_rounds [OF that, of 3600] by (simp add: q_def hours_def)
  have "0 \<le> hours"
    unfolding hours_def using range(1) by (intro true_divide_nonneg) simp_all
  from format_1f_decimal [OF this] obtain n ip f where fmt: "format_1f hours = ip @ ''.'' @ [f]"
    and tenths: "\<bar>hours * 10 - of_nat n\<bar> \<le> 1 / 2" "\<bar>hours * 10 - of_nat n\<bar> = 1 / 2 \<longrightarrow> even n"
    and dec: "foldl (\<lambda>v c. 10 * v + (of_char c - 48)) 0 ip = n div 10" "ip \<noteq> []"
      "set ip \<subseteq> set ''0123456789''" "ip = ''0'' \<or> hd ip \<noteq> CHR ''0''"
      "(of_char f :: nat) = 48 + n mod 10"
    by blast
  have lab': "time_label ax ! i = Some (ip @ ''.'' @ [f] @ ''h'')"
    by (simp add: lab fmt)
  have label: "\<exists>(hours :: rat) (n :: nat) ip f. time_label ax ! i = Some (ip @ ''.'' @ [f] @ ''h'')
          \<and> (elapsed = 0 \<longrightarrow> hours = 0)
          \<and> (0 < elapsed \<longrightarrow>
               (\<exists>e m. 2 powi (e + 52) \<le> q \<and> q < 2 powi (e + 53)
                  \<and> hours = of_int m * 2 powi e
                  \<and> \<bar>q / 2 powi e - of_int m\<bar> \<le> 1 / 2
                  \<and> (\<bar>q / 2 powi e - of_int m\<bar> = 1 / 2 \<longrightarrow> even m)))
          \<and> \<bar>hours * 10 - of_nat n\<bar> \<le> 1 / 2
          \<and> (\<bar>hours * 10 - of_nat n\<bar> = 1 / 2 \<longrightarrow> even n)
          \<and> foldl (\<lambda>v c. 10 * v + (of_char c - 48)) 0 ip = n div 10
          \<and> ip \<noteq> [] \<and> set ip \<subseteq> set ''0123456789'' \<and> (ip = ''0'' \<or> hd ip \<noteq> CHR ''0'')
          \<and> (of_char f :: nat) = 48 + n mod 10"
    using lab' zero flt tenths dec by (intro exI [of _ hours] exI [of _ n] exI [of _ ip] exI [of _ f]) blast
  have epoch: "FIXED_EPOCH = 1735689600 * 1000000000"
    by (simp add: FIXED_EPOCH_def)
  have ex1: "map_sum id time_label (reconcile res
           [r\<lparr>timestamp := 0\<rparr>, r\<lparr>timestamp := 3600\<rparr>, r\<lparr>timestamp := 7200\<rparr>]) =
         Inr [Some ''0.0h'', Some ''1.0h'', Some ''2.0h'']"
    by (simp add: case_B_example)
  show ?thesis
    unfolding Let_def elapsed_def [symmetric] q_def [symmetric]
    by (intro conjI dt range label epoch ex1 hour_labels_example)
qed


theorem C4_case_B_witness:
  "(let df = [\<lparr>timestamp = 0, soil_raw = None, light_raw = None, temp_c = None, hum = None, mood = ''happy''\<rparr>,
        \<lparr>timestamp = 3600, soil_raw = None, light_raw = None, temp_c = None, hum = None, mood = ''happy''\<rparr>];
        ax = \<lparr>datetime = [Some 1735689600000000000, Some 1735693200000000000],
          time_label = [Some ''0.0h'', Some ''1.0h'']\<rparr>
    in \<not> list_ex is_unix_timestamp df \<and> - 9223372036854775808 \<le> timestamp (df ! 0)
     \<and> - 9223372036854775808 \<le> timestamp (df ! 1)
     \<and> reconcile Nanoseconds df = Inr ax \<and> reconcile Microseconds df = Inr ax \<and> 1 < length df
     \<and> datetime ax ! 1 =
         Some (FIXED_EPOCH + (timestamp (df ! 1) - Min (timestamp ` set df)) * 1000000000))"
proof -
  let ?df = "[\<lparr>timestamp = 0, soil_raw = None, light_raw = None, temp_c = None, hum = None, mood = ''happy''\<rparr>,
        \<lparr>timestamp = 3600, soil_raw = None, light_raw = None, temp_c = None, hum = None, mood = ''happy''\<rparr>]"
  let ?ax = "\<lparr>datetime = [Some 1735689600000000000, Some 1735693200000000000],
          time_label = [Some ''0.0h'', Some ''1.0h'']\<rparr>"
  have h1: "\<not> list_ex is_unix_timestamp ?df"
    by (simp add: is_unix_timestamp_def THRESHOLD_def)
  have h2: "\<forall>r\<in>set ?df. - 9223372036854775808 \<le> timestamp r"
    by simp
  have sec: "seconds_from_start ?df = [0, 3600]"
    by (simp add: int64_examples)
  have lab: "hour_labels ?df = [''0.0h'', ''1.0h'']"
    unfolding hour_labels_def hours_from_start_def sec
    by (simp add: true_divide_examples format_1f_examples)
  have dt: "datetime_B res ?df = Inr [Some 1735689600000000000, Some 1735693200000000000]" for res
    unfolding datetime_B_def sec
    by (cases res) (simp_all add: in_bounds_def FIXED_EPOCH_def)
  have h3: "reconcile res ?df = Inr ?ax" for res
    unfolding reconcile_def using h1 by (simp add: dt lab)
  have h4: "1 < length ?df" by simp
  from C4_case_B [OF h1 h2 h3 h4, unfolded Let_def, THEN conjunct1, THEN conjunct1]
  have "datetime ?ax ! 1 =
      Some (FIXED_EPOCH + (timestamp (?df ! 1) - Min (timestamp ` set ?df)) * 1000000000)" .
  with h1 h3 [of Nanoseconds] h3 [of Microseconds] show ?thesis
    unfolding Let_def by (intro conjI) simp_all
qed

subsection \<open>Mood distribution\<close>








subsection \<open>Pearson correlation\<close>

lemma pearson_swap: "pearson (map prod.swap ps) = pearson ps"
  by (simp add: pearson_def Let_def comp_def case_prod_unfold mult.commute)

lemma complete_pairs_swap: "complete_pairs b a = map prod.swap (complete_pairs a b)"
  by (simp add: complete_pairs_def zip_commute [of b a] filter_map comp_def case_prod_unfold
      conj_commute)

lemma pearson_complete_pairs_sym:
  "pearson (complete_pairs a b) = pearson (complete_pairs b a)"
  by (simp add: complete_pairs_swap [of b a] pearson_swap)

lemma length_channels: "length channels = 4"
  by (simp add: channels_def)

lemma corr_nth:
  "i < 4 \<Longrightarrow> j < 4 \<Longrightarrow>
   corr df ! i ! j = pearson (complete_pairs (map (channels ! i) df) (map (channels ! j) df))"
  by (simp add: corr_def length_channels)

lemma complete_pairs_present:
  assumes "\<forall>r\<in>set df. a r \<noteq> None \<and> b r \<noteq> None"
  shows "complete_pairs (map a df) (map b df) = map (\<lambda>r. (the (a r), the (b r))) df"
  using assms by (induction df) (auto simp: complete_pairs_def)

lemma sum_sq_dev_zero:
  fixes m :: real
  shows "(\<Sum>x\<leftarrow>xs. (x - m) ^ 2) = 0 \<longleftrightarrow> (\<forall>x\<in>set xs. x = m)"
proof -
  have "(\<Sum>x\<leftarrow>xs. (x - m) ^ 2) = 0 \<longleftrightarrow> (\<forall>y\<in>set (map (\<lambda>x. (x - m) ^ 2) xs). y = 0)"
    by (rule sum_list_nonneg_eq_0_iff) auto
  then show ?thesis by simp
qed

lemma mean_const:
  assumes "xs \<noteq> []" and "\<forall>x\<in>set xs. x = c"
  shows "mean xs = c"
proof -
  from assms(2) have "sum_list xs = real (length xs) * c"
    by (induction xs) (auto simp: algebra_simps)
  with assms(1) show ?thesis by (simp add: mean_def)
qed

lemma const_iff_mean:
  assumes "xs \<noteq> []"
  shows "(\<forall>x\<in>set xs. x = mean xs) \<longleftrightarrow> (\<exists>c. \<forall>x\<in>set xs. x = c)"
  using mean_const [OF assms] by metis

lemma pearson_diag:
  assumes "xs \<noteq> []"
  shows "pearson (map (\<lambda>x. (x, x)) xs) = (if \<exists>c. \<forall>x\<in>set xs. x = c then None else Some 1)"
proof -
  let ?S = "\<Sum>x\<leftarrow>xs. (x - mean xs) ^ 2"
  have S0: "?S = 0 \<longleftrightarrow> (\<exists>c. \<forall>x\<in>set xs. x = c)"
    unfolding sum_sq_dev_zero by (rule const_iff_mean [OF assms])
  have "pearson (map (\<lambda>x. (x, x)) xs) = (if sqrt (?S * ?S) \<noteq> 0 then Some (?S / sqrt (?S * ?S)) else None)"
    using assms by (simp add: pearson_def Let_def comp_def power2_eq_square)
  also have "sqrt (?S * ?S) = ?S"
  proof -
    have "0 \<le> ?S" by (rule sum_list_nonneg) auto
    then show ?thesis by simp
  qed
  finally show ?thesis using S0 by simp
qed

lemma pearson_const:
  assumes "\<forall>p\<in>set ps. fst p = c"
  shows "pearson ps = None"
proof (cases "ps = []")
  case True
  then show ?thesis by (simp add: pearson_def)
next
  case False
  have m: "mean (map fst ps) = c"
    using False assms by (intro mean_const) auto
  have "(\<Sum>x\<leftarrow>map fst ps. (x - c) ^ 2) = 0"
    unfolding sum_sq_dev_zero using assms by auto
  then have "(\<Sum>p\<leftarrow>ps. (fst p - c) ^ 2) = 0"
    by (simp add: comp_def)
  then show ?thesis
    by (simp add: pearson_def Let_def m case_prod_unfold)
qed


lemma sum_list_map_nth: "sum_list (map f xs) = (\<Sum>k<length xs. f (xs ! k))"
  for f :: "'a \<Rightarrow> real"
  using sum_list_sum_nth [of "map f xs"] by (simp add: atLeast0LessThan)

lemma pearson_formula:
  assumes "df \<noteq> []"
  shows "pearson (map (\<lambda>r. (a r, b r)) df) =
    (let n = length df;
         mx = (\<Sum>k<n. a (df ! k)) / real n;
         my = (\<Sum>k<n. b (df ! k)) / real n;
         sxy = (\<Sum>k<n. (a (df ! k) - mx) * (b (df ! k) - my));
         sxx = (\<Sum>k<n. (a (df ! k) - mx) ^ 2);
         syy = (\<Sum>k<n. (b (df ! k) - my) ^ 2)
     in if sxx * syy = 0 then None else Some (sxy / sqrt (sxx * syy)))"
  using assms
  by (simp add: pearson_def mean_def Let_def comp_def sum_list_map_nth)

subsection \<open>Correlation matrix of a run\<close>

lemma analysis_total:
  assumes "logs \<noteq> []" and "reconcile res (map snd (sort_values logs)) = Inr ax"
  shows "\<exists>rep. analysis res logs = Inr rep"
  using assms by (simp add: analysis_def Let_def)

text \<open>
  C7. For a batch in which every record has the four sensor values, the run completes
  whenever the time axis can be built, and its correlation matrix is a symmetric 4 by 4
  matrix. Each cell is the Pearson coefficient of its two channels, the sum of the products
  of the deviations from the means over the root of the product of the sums of squared
  deviations, and NaN when that product is zero. The diagonal cell of a channel that varies
  is 1, and every cell that involves a channel whose values are all equal, its diagonal
  cell too, is NaN. The numbers are real numbers.
\<close>

theorem C7_correlation_matrix:
  assumes "logs \<noteq> []" and "reconcile res (map snd (sort_values logs)) = Inr ax"
    and "\<forall>row\<in>set logs. \<forall>ch\<in>set channels. ch (snd row) \<noteq> None"
    and "i < 4" and "j < 4"
  shows "\<exists>rep. analysis res logs = Inr rep
     \<and> map length (correlations rep) = [4, 4, 4, 4]
     \<and> correlations rep ! i ! j = correlations rep ! j ! i
     \<and> correlations rep ! i ! j =
         (let n = length (frame rep);
              x = (\<lambda>k. the ((channels ! i) (frame rep ! k)));
              y = (\<lambda>k. the ((channels ! j) (frame rep ! k)));
              mx = (\<Sum>k<n. x k) / real n;
              my = (\<Sum>k<n. y k) / real n;
              sxy = (\<Sum>k<n. (x k - mx) * (y k - my));
              sxx = (\<Sum>k<n. (x k - mx) ^ 2);
              syy = (\<Sum>k<n. (y k - my) ^ 2)
          in if sxx * syy = 0 then None else Some (sxy / sqrt (sxx * syy)))
     \<and> correlations rep ! i ! i =
         (if \<exists>c. \<forall>row\<in>set logs. (channels ! i) (snd row) = Some c then None else Some 1)
     \<and> ((\<exists>c. \<forall>row\<in>set logs. (channels ! i) (snd row) = Some c) \<longrightarrow>
          correlations rep ! i ! j = None \<and> correlations rep ! j ! i = None)"
proof -
  from assms(1,2) obtain rep where run: "analysis res logs = Inr rep"
    using analysis_total by blast
  note rep = analysis_Inr [OF run]
  let ?df = "frame rep"
  let ?a = "channels ! i" and ?b = "channels ! j"
  have set_df: "set ?df = snd ` set logs"
    by (simp add: rep(2) sort_values_def)
  have df: "?df \<noteq> []"
    using assms(1) set_df by (cases "?df") auto
  have mem: "?a \<in> set channels" "?b \<in> set channels"
    using assms(4,5) by (simp_all add: length_channels)
  have present: "\<forall>r\<in>set ?df. ?a r \<noteq> None \<and> ?b r \<noteq> None"
    using assms(3) mem unfolding set_df by auto
  have sel: "?a r = Some c \<longleftrightarrow> the (?a r) = c" if "r \<in> set ?df" for r c
    using present that by auto
  have "(\<exists>c. \<forall>row\<in>set logs. ?a (snd row) = Some c) \<longleftrightarrow> (\<exists>c. \<forall>r\<in>set ?df. ?a r = Some c)"
    by (simp add: set_df)
  also have "\<dots> \<longleftrightarrow> (\<exists>c. \<forall>r\<in>set ?df. the (?a r) = c)"
    using sel by simp
  finally have const: "(\<exists>c. \<forall>row\<in>set logs. ?a (snd row) = Some c) \<longleftrightarrow>
      (\<exists>c. \<forall>x\<in>set (map (\<lambda>r. the (?a r)) ?df). x = c)"
    by simp
  have dims: "map length (correlations rep) = [4, 4, 4, 4]"
    by (simp add: rep(11) corr_def channels_def)
  have sym: "correlations rep ! i ! j = correlations rep ! j ! i"
    unfolding rep(11) corr_nth [OF assms(4,5)] corr_nth [OF assms(5,4)]
    by (rule pearson_complete_pairs_sym)
  have cell: "correlations rep ! i ! j = pearson (map (\<lambda>r. (the (?a r), the (?b r))) ?df)"
    unfolding rep(11) corr_nth [OF assms(4,5)] using present
    by (simp add: complete_pairs_present)
  have formula: "correlations rep ! i ! j =
         (let n = length (frame rep);
              x = (\<lambda>k. the ((channels ! i) (frame rep ! k)));
              y = (\<lambda>k. the ((channels ! j) (frame rep ! k)));
              mx = (\<Sum>k<n. x k) / real n;
              my = (\<Sum>k<n. y k) / real n;
              sxy = (\<Sum>k<n. (x k - mx) * (y k - my));
              sxx = (\<Sum>k<n. (x k - mx) ^ 2);
              syy = (\<Sum>k<n. (y k - my) ^ 2)
          in if sxx * syy = 0 then None else Some (sxy / sqrt (sxx * syy)))"
    unfolding cell pearson_formula [OF df] Let_def ..
  have "correlations rep ! i ! i = pearson (map (\<lambda>x. (x, x)) (map (\<lambda>r. the (?a r)) ?df))"
    unfolding rep(11) corr_nth [OF assms(4,4)] using present
    by (simp add: complete_pairs_present comp_def)
  also have "\<dots> = (if \<exists>c. \<forall>x\<in>set (map (\<lambda>r. the (?a r)) ?df). x = c then None else Some 1)"
    using df by (intro pearson_diag) simp
  finally have diag: "correlations rep ! i ! i =
      (if \<exists>c. \<forall>row\<in>set logs. ?a (snd row) = Some c then None else Some 1)"
    unfolding const .
  have nan: "correlations rep ! i ! j = None \<and> correlations rep ! j ! i = None"
    if "\<exists>c. \<forall>row\<in>set logs. ?a (snd row) = Some c"
  proof -
    from that obtain c where c: "\<forall>r\<in>set ?df. ?a r = Some c"
      unfolding set_df by auto
    have "pearson (map (\<lambda>r. (the (?a r), the (?b r))) ?df) = None"
      using c by (intro pearson_const [where c = c]) auto
    then show ?thesis using sym cell by simp
  qed
  from nan have nan': "(\<exists>c. \<forall>row\<in>set logs. ?a (snd row) = Some c) \<longrightarrow>
      correlations rep ! i ! j = None \<and> correlations rep ! j ! i = None"
    by (rule impI)
  show ?thesis
    by (intro exI [of _ rep] conjI run dims sym formula diag nan')
qed


theorem C7_correlation_matrix_witness:
  "(let logs = [(''r3'', \<lparr>timestamp = 1700000000000, soil_raw = Some 3, light_raw = Some 2,
                   temp_c = Some 6, hum = Some 40, mood = ''happy''\<rparr>),
                (''r1'', \<lparr>timestamp = 5000, soil_raw = Some 1, light_raw = Some 1,
                   temp_c = Some 2, hum = Some 40, mood = ''happy''\<rparr>),
                (''r2'', \<lparr>timestamp = 6000, soil_raw = Some 2, light_raw = Some 3,
                   temp_c = Some 4, hum = Some 40, mood = ''happy''\<rparr>)];
        m = correlations (projr (analysis Nanoseconds logs))
    in analysis Nanoseconds logs = Inr (projr (analysis Nanoseconds logs))
     \<and> map length m = [4, 4, 4, 4]
     \<and> m ! 0 ! 0 = Some 1 \<and> m ! 0 ! 1 = Some (1 / 2) \<and> m ! 1 ! 0 = Some (1 / 2)
     \<and> m ! 3 ! 3 = None \<and> m ! 3 ! 0 = None \<and> m ! 0 ! 3 = None)"
proof -
  let ?a = "\<lparr>timestamp = 5000, soil_raw = Some 1, light_raw = Some 1,
                   temp_c = Some 2, hum = Some 40, mood = ''happy''\<rparr>"
  let ?b = "\<lparr>timestamp = 6000, soil_raw = Some 2, light_raw = Some 3,
                   temp_c = Some 4, hum = Some 40, mood = ''happy''\<rparr>"
  let ?c = "\<lparr>timestamp = 1700000000000, soil_raw = Some 3, light_raw = Some 2,
                   temp_c = Some 6, hum = Some 40, mood = ''happy''\<rparr>"
  let ?logs = "[(''r3'', ?c), (''r1'', ?a), (''r2'', ?b)]"
  let ?col = "[Some 1700000000000000000, Some 1700000000000000000,
      Some (1700000000000000000 :: int)]"
  have h1: "?logs \<noteq> []" by simp
  have srt: "map snd (sort_values ?logs) = [?a, ?b, ?c]"
    by (simp add: sort_values_def)
  have h2: "reconcile Nanoseconds (map snd (sort_values ?logs)) =
      Inr \<lparr>datetime = ?col, time_label = map strftime ?col\<rparr>"
    unfolding srt
    by (simp add: reconcile_def datetime_A_def unix_datetimes_def ffill_def in_bounds_def
        is_unix_timestamp_def THRESHOLD_def)
  have h3: "\<forall>row\<in>set ?logs. \<forall>ch\<in>set channels. ch (snd row) \<noteq> None"
    by (simp add: channels_def)
  have h4: "(0::nat) < 4" and h5: "(1::nat) < 4" by simp_all
  have run: "analysis Nanoseconds ?logs = Inr (projr (analysis Nanoseconds ?logs))"
    using C7_correlation_matrix [OF h1 h2 h3 h4 h5] by (elim exE conjE) (simp only: sum.sel)
  have m: "correlations (projr (analysis Nanoseconds ?logs)) = corr [?a, ?b, ?c]"
    using analysis_Inr(2,11) [OF run] srt by simp
  have pairs: "complete_pairs (map soil_raw [?a, ?b, ?c]) (map soil_raw [?a, ?b, ?c]) =
      [(1, 1), (2, 2), (3, 3)]"
    "complete_pairs (map soil_raw [?a, ?b, ?c]) (map light_raw [?a, ?b, ?c]) =
      [(1, 1), (2, 3), (3, 2)]"
    "complete_pairs (map light_raw [?a, ?b, ?c]) (map soil_raw [?a, ?b, ?c]) =
      [(1, 1), (3, 2), (2, 3)]"
    "complete_pairs (map hum [?a, ?b, ?c]) (map hum [?a, ?b, ?c]) =
      [(40, 40), (40, 40), (40, 40)]"
    "complete_pairs (map hum [?a, ?b, ?c]) (map soil_raw [?a, ?b, ?c]) =
      [(40, 1), (40, 2), (40, 3)]"
    "complete_pairs (map soil_raw [?a, ?b, ?c]) (map hum [?a, ?b, ?c]) =
      [(1, 40), (2, 40), (3, 40)]"
    by (simp_all add: complete_pairs_def)
  have vals: "pearson [(1, 1), (2, 2), (3, 3)] = Some 1"
    "pearson [(1, 1), (2, 3), (3, 2)] = Some (1 / 2)"
    "pearson [(1, 1), (3, 2), (2, 3)] = Some (1 / 2)"
    "pearson [(40, 40), (40, 40), (40, 40)] = None"
    "pearson [(40, 1), (40, 2), (40, 3)] = None"
    "pearson [(1, 40), (2, 40), (3, 40)] = None"
    by (simp_all add: pearson_def mean_def Let_def power2_eq_square)
  have h6: "(3::nat) < 4" by simp
  have ch: "channels ! 0 = soil_raw" "channels ! 1 = light_raw" "channels ! 3 = hum"
    by (simp_all add: channels_def)
  have c00: "corr [?a, ?b, ?c] ! 0 ! 0 = Some 1"
    unfolding corr_nth [OF h4 h4] ch pairs vals ..
  have c01: "corr [?a, ?b, ?c] ! 0 ! 1 = Some (1 / 2)"
    unfolding corr_nth [OF h4 h5] ch pairs vals ..
  have c10: "corr [?a, ?b, ?c] ! 1 ! 0 = Some (1 / 2)"
    unfolding corr_nth [OF h5 h4] ch pairs vals ..
  have c33: "corr [?a, ?b, ?c] ! 3 ! 3 = None"
    unfolding corr_nth [OF h6 h6] ch pairs vals ..
  have c30: "corr [?a, ?b, ?c] ! 3 ! 0 = None"
    unfolding corr_nth [OF h6 h4] ch pairs vals ..
  have c03: "corr [?a, ?b, ?c] ! 0 ! 3 = None"
    unfolding corr_nth [OF h4 h6] ch pairs vals ..
  have dims: "map length (corr [?a, ?b, ?c]) = [4, 4, 4, 4]"
    by (simp add: corr_def channels_def)
  show ?thesis
    unfolding Let_def m by (intro conjI run dims c00 c01 c10 c33 c30 c03)
qed

end
